theory Spec2Isabelle
  imports Main "HOL-Library.Char_ord" "HOL-Library.List_Lexorder"
begin

section \<open>Data model\<close>

text \<open>
  The library stores JSON values in IndexedDB object stores and keeps a change log.
  \<open>JsonValue\<close> is the tagged union of the source. Numbers are left abstract (type
  parameter \<open>'n\<close>): the library never computes with them, it only hands them to the
  storage engine and back.
\<close>

datatype 'n JsonValue =
    JNull
  | JBool bool
  | JNum 'n
  | JStr string
  | JArr "'n JsonValue list"
  | JObj "(string \<times> 'n JsonValue) list"

text \<open>
  \<open>IDBValidKey\<close>: a number (the model has the integers), a \<open>Date\<close> (its time value), a
  string, a binary key (its bytes) or an array of keys. The engine orders the kinds as
  number, date, string, binary, array; within a kind it orders numbers and dates by
  value, strings by code unit, binary keys by byte, and arrays element by element, a
  proper prefix before its extensions.
\<close>

datatype idbkey = KNum int | KDate int | KStr string | KBin "nat list" | KArr "idbkey list"

fun key_rank :: "idbkey \<Rightarrow> nat" where
  "key_rank (KNum a) = 0"
| "key_rank (KDate a) = 1"
| "key_rank (KStr a) = 2"
| "key_rank (KBin a) = 3"
| "key_rank (KArr a) = 4"

fun key_less :: "idbkey \<Rightarrow> idbkey \<Rightarrow> bool"
  and keys_less :: "idbkey list \<Rightarrow> idbkey list \<Rightarrow> bool" where
  "key_less (KNum a) (KNum b) = (a < b)"
| "key_less (KDate a) (KDate b) = (a < b)"
| "key_less (KStr a) (KStr b) = (a < b)"
| "key_less (KBin a) (KBin b) = (a < b)"
| "key_less (KArr a) (KArr b) = keys_less a b"
| "key_less a b = (key_rank a < key_rank b)"
| "keys_less [] [] = False"
| "keys_less [] (y # ys) = True"
| "keys_less (x # xs) [] = False"
| "keys_less (x # xs) (y # ys) = (key_less x y \<or> (x = y \<and> keys_less xs ys))"

text \<open>
  In JavaScript a number or a string key is a primitive value; a date, binary or array
  key is an object.
\<close>

fun primitive_key :: "idbkey \<Rightarrow> bool" where
  "primitive_key (KNum a) = True"
| "primitive_key (KStr a) = True"
| "primitive_key k = False"

text \<open>
  What an object store holds and what a cursor hands to a callback as \<open>cursor.value\<close>:
  a plain JSON value (stored by \<open>put(value, key)\<close>), or a change-log entry, the object
  \<open>{store, key, value}\<close> of \<open>writeJson\<close> into which the engine has injected the
  generated \<open>id\<close> (key path \<open>'id'\<close>).
\<close>

datatype 'n stored =
    Plain "'n JsonValue"
  | Entry int string idbkey "'n JsonValue"

text \<open>
  An object store: whether it was created with \<open>{keyPath: 'id', autoIncrement: true}\<close>,
  the current number of its key generator, and its records in the order a cursor
  yields them (ascending key).
\<close>

record 'n objstore =
  autoInc :: bool
  keyGen :: int
  recs :: "(idbkey \<times> 'n stored) list"

record 'n database =
  version :: nat
  stores :: "string \<rightharpoonup> 'n objstore"

text \<open>
  The engine: the databases by name, and the open connections (one entry per handle
  that has been opened and not closed, named by its database).
\<close>

record 'n host =
  dbs :: "string \<rightharpoonup> 'n database"
  conns :: "string list"

datatype error =
    NotFoundError
  | DataError
  | ConstraintError
  | VersionError
  | HostFailure
  | TransactionError
  | UserError string

text \<open>
  Failures of the engine that the library cannot influence are an input of each
  operation: the open request fails, or a request of the operation's transaction
  fails; the error event of a failed request reaches the transaction, which then
  aborts. For a cursor scan the number says how many records the cursor has yielded
  before its request fails (when the store holds fewer, it is the step that would have
  reported exhaustion that fails). An abort reverts every change of the transaction.
  A failure that strikes only after the last request of a transaction has succeeded is
  not part of this model.
\<close>

datatype fault = NoFault | OpenFault | TxFault nat

text \<open>
  How a promise ends. \<open>Unsettled e\<close>: the exception \<open>e\<close> was thrown inside an event
  handler of the engine, outside the promise's executor and with no enclosing
  \<open>try\<close>; the handler is abandoned and the promise is never resolved nor rejected.
\<close>

datatype 'a outcome = Resolved 'a | Rejected error | Unsettled error

section \<open>The storage engine\<close>

subsection \<open>Records of one object store\<close>

fun put_rec :: "idbkey \<Rightarrow> 'a \<Rightarrow> (idbkey \<times> 'a) list \<Rightarrow> (idbkey \<times> 'a) list" where
  "put_rec k v [] = [(k, v)]"
| "put_rec k v ((k', v') # rs) =
     (if key_less k k' then (k, v) # (k', v') # rs
      else if k = k' then (k, v) # rs
      else (k', v') # put_rec k v rs)"

definition del_rec :: "idbkey \<Rightarrow> (idbkey \<times> 'a) list \<Rightarrow> (idbkey \<times> 'a) list" where
  "del_rec k rs = filter (\<lambda>r. fst r \<noteq> k) rs"

definition get_rec :: "idbkey \<Rightarrow> (idbkey \<times> 'a) list \<Rightarrow> 'a option" where
  "get_rec k rs = map_of rs k"

text \<open>
  \<open>store.put(value, key)\<close>. A store with a key path takes its keys from the value
  (in-line keys): passing a key as well throws \<open>DataError\<close> before any request is made.
\<close>

definition store_put :: "'n JsonValue \<Rightarrow> idbkey \<Rightarrow> 'n objstore \<Rightarrow> error + 'n objstore" where
  "store_put v k st =
     (if autoInc st then Inl DataError
      else Inr (st\<lparr>recs := put_rec k (Plain v) (recs st)\<rparr>))"

text \<open>
  \<open>store.add({store, key, value})\<close>, the only call of \<open>add\<close> in the library: the object
  carries no \<open>id\<close> and no key is passed. A store without key generator throws
  \<open>DataError\<close> at the call. Otherwise the request is placed; it takes the generator's
  current number as key, and fails with \<open>ConstraintError\<close> when the generator has
  passed \<open>2 ^ 53\<close> or the key is taken.
\<close>

datatype 'a request = Throws error | ReqError error | ReqOk 'a

definition store_add :: "string \<Rightarrow> idbkey \<Rightarrow> 'n JsonValue \<Rightarrow> 'n objstore \<Rightarrow> 'n objstore request" where
  "store_add s k v st =
     (if \<not> autoInc st then Throws DataError
      else if keyGen st > 2 ^ 53 then ReqError ConstraintError
      else if get_rec (KNum (keyGen st)) (recs st) \<noteq> None then ReqError ConstraintError
      else ReqOk (st\<lparr>keyGen := keyGen st + 1,
                     recs := put_rec (KNum (keyGen st)) (Entry (keyGen st) s k v) (recs st)\<rparr>))"

definition store_delete :: "idbkey \<Rightarrow> 'n objstore \<Rightarrow> 'n objstore" where
  "store_delete k st = st\<lparr>recs := del_rec k (recs st)\<rparr>"

subsection \<open>Opening, transactions, closing\<close>

definition createObjectStore :: "string \<Rightarrow> bool \<Rightarrow> 'n database \<Rightarrow> 'n database" where
  "createObjectStore s ai db =
     db\<lparr>stores := (stores db)(s \<mapsto> \<lparr>autoInc = ai, keyGen = 1, recs = []\<rparr>)\<rparr>"

text \<open>
  \<open>indexedDB.open(name, version)\<close> with an upgrade hook. A missing database is created
  empty and upgraded to the requested version (1 when none is given), which runs the
  hook; an existing one is upgraded only when the requested version is higher, and a
  lower requested version is a \<open>VersionError\<close>. The upgrade is committed before the
  open request succeeds. The result is the database as the new handle sees it, and the
  engine with one more open connection.
\<close>

definition idb_open ::
  "'n host \<Rightarrow> fault \<Rightarrow> string \<Rightarrow> nat option \<Rightarrow> ('n database \<Rightarrow> 'n database)
     \<Rightarrow> error + ('n database \<times> 'n host)" where
  "idb_open h f name ver hook =
     (if f = OpenFault then Inl HostFailure
      else case dbs h name of
        None \<Rightarrow>
          (let db = hook \<lparr>version = (case ver of None \<Rightarrow> 1 | Some v \<Rightarrow> v), stores = Map.empty\<rparr>
           in Inr (db, h\<lparr>dbs := (dbs h)(name \<mapsto> db), conns := name # conns h\<rparr>))
      | Some db0 \<Rightarrow>
          (let v = (case ver of None \<Rightarrow> version db0 | Some v \<Rightarrow> v)
           in if v < version db0 then Inl VersionError
              else if version db0 < v then
                (let db = hook (db0\<lparr>version := v\<rparr>)
                 in Inr (db, h\<lparr>dbs := (dbs h)(name \<mapsto> db), conns := name # conns h\<rparr>))
              else Inr (db0, h\<lparr>conns := name # conns h\<rparr>)))"

text \<open>
  \<open>db.transaction(names, mode)\<close> throws \<open>NotFoundError\<close> when a named store does not
  exist. A transaction works on its own copy of the database; \<open>commit\<close> makes the copy
  the database, an abort drops it.
\<close>

definition transaction :: "'n database \<Rightarrow> string list \<Rightarrow> error + 'n database" where
  "transaction db names =
     (if \<forall>s \<in> set names. stores db s \<noteq> None then Inr db else Inl NotFoundError)"

definition commit :: "string \<Rightarrow> 'n database \<Rightarrow> 'n host \<Rightarrow> 'n host" where
  "commit name tx h = h\<lparr>dbs := (dbs h)(name \<mapsto> tx)\<rparr>"

definition close :: "string \<Rightarrow> 'n host \<Rightarrow> 'n host" where
  "close name h = h\<lparr>conns := remove1 name (conns h)\<rparr>"

section \<open>The library\<close>

subsection \<open>Adapters\<close>

text \<open>
  The upgrade hook of \<open>openDb\<close>: it creates the caller's store with out-of-line keys
  and no key generator, then \<open>changeLog\<close> with key path \<open>id\<close> and a key generator,
  each only when no store of that name exists yet.
\<close>

definition onupgradeneeded :: "string \<Rightarrow> 'n database \<Rightarrow> 'n database" where
  "onupgradeneeded storeName db =
     (let db1 = (if stores db storeName = None then createObjectStore storeName False db else db)
      in if stores db1 ''changeLog'' = None then createObjectStore ''changeLog'' True db1 else db1)"

text \<open>\<open>openDb(dbName, storeName)\<close>: the version parameter keeps its default, 1.\<close>

definition openDb ::
  "'n host \<Rightarrow> fault \<Rightarrow> string \<Rightarrow> string \<Rightarrow> error + ('n database \<times> 'n host)" where
  "openDb h f dbName storeName = idb_open h f dbName (Some 1) (onupgradeneeded storeName)"

text \<open>
  \<open>requestToPromise(req)\<close> resolves with the result of the request and rejects with
  the error of the request.
\<close>

definition requestToPromise :: "fault \<Rightarrow> 'a \<Rightarrow> error + 'a" where
  "requestToPromise f result = (case f of TxFault n \<Rightarrow> Inl HostFailure | _ \<Rightarrow> Inr result)"

text \<open>
  \<open>txDone(tx)\<close> resolves on \<open>complete\<close> and rejects on \<open>abort\<close> and on \<open>error\<close>. The
  error event of a failed request reaches \<open>tx.onerror\<close> before the transaction aborts:
  \<open>tx.error\<close> is not set yet, and the promise is rejected with the adapter's own
  \<open>Error('Transaction error')\<close>, whatever the error of the request.
\<close>

definition txDone :: "fault \<Rightarrow> error + unit" where
  "txDone f = (case f of TxFault n \<Rightarrow> Inl TransactionError | _ \<Rightarrow> Inr ())"

text \<open>
  The end of a transaction that nobody waits for: it commits by itself once its
  requests are done, unless a request fails.
\<close>

definition autoCommit :: "fault \<Rightarrow> string \<Rightarrow> 'n database \<Rightarrow> 'n host \<Rightarrow> 'n host" where
  "autoCommit f name tx h = (case f of TxFault n \<Rightarrow> h | _ \<Rightarrow> commit name tx h)"

text \<open>\<open>tx.objectStore(s).put(value, key)\<close> and \<open>tx.objectStore(s).add({store, key, value})\<close>.\<close>

definition objectStore_put ::
  "string \<Rightarrow> 'n JsonValue \<Rightarrow> idbkey \<Rightarrow> 'n database \<Rightarrow> error + 'n database" where
  "objectStore_put s v k tx =
     (case stores tx s of
        None \<Rightarrow> Inl NotFoundError
      | Some st \<Rightarrow>
          (case store_put v k st of
             Inl e \<Rightarrow> Inl e
           | Inr st' \<Rightarrow> Inr (tx\<lparr>stores := (stores tx)(s \<mapsto> st')\<rparr>)))"

definition objectStore_add ::
  "string \<Rightarrow> string \<Rightarrow> idbkey \<Rightarrow> 'n JsonValue \<Rightarrow> 'n database \<Rightarrow> 'n database request" where
  "objectStore_add s storeName k v tx =
     (case stores tx s of
        None \<Rightarrow> Throws NotFoundError
      | Some st \<Rightarrow>
          (case store_add storeName k v st of
             Throws e \<Rightarrow> Throws e
           | ReqError e \<Rightarrow> ReqError e
           | ReqOk st' \<Rightarrow> ReqOk (tx\<lparr>stores := (stores tx)(s \<mapsto> st')\<rparr>)))"

subsection \<open>writeJson, readJson, deleteKey\<close>

text \<open>
  An exception inside an \<open>async\<close> function rejects its promise and skips the rest of
  the body, \<open>db.close()\<close> included. When \<open>add\<close> throws, the \<open>put\<close> request has already
  been placed and its transaction is left to itself. When the \<open>add\<close> request fails, its
  error event reaches \<open>tx.onerror\<close> and \<open>txDone\<close> rejects with its own error.
\<close>

definition writeJson ::
  "'n host \<Rightarrow> fault \<Rightarrow> string \<Rightarrow> string \<Rightarrow> idbkey \<Rightarrow> 'n JsonValue \<Rightarrow> unit outcome \<times> 'n host" where
  "writeJson h f dbName storeName key val =
     (case openDb h f dbName storeName of
        Inl e \<Rightarrow> (Rejected e, h)
      | Inr (db, h1) \<Rightarrow>
          (case transaction db [storeName, ''changeLog''] of
             Inl e \<Rightarrow> (Rejected e, h1)
           | Inr tx \<Rightarrow>
               (case objectStore_put storeName val key tx of
                  Inl e \<Rightarrow> (Rejected e, h1)
                | Inr tx1 \<Rightarrow>
                    (case objectStore_add ''changeLog'' storeName key val tx1 of
                       Throws e \<Rightarrow> (Rejected e, autoCommit f dbName tx1 h1)
                     | ReqError e \<Rightarrow> (Rejected TransactionError, h1)
                     | ReqOk tx2 \<Rightarrow>
                         (case txDone f of
                            Inl e \<Rightarrow> (Rejected e, h1)
                          | Inr u \<Rightarrow> (Resolved (), close dbName (commit dbName tx2 h1)))))))"

definition readJson ::
  "'n host \<Rightarrow> fault \<Rightarrow> string \<Rightarrow> string \<Rightarrow> idbkey \<Rightarrow> 'n stored option outcome \<times> 'n host" where
  "readJson h f dbName storeName key =
     (case openDb h f dbName storeName of
        Inl e \<Rightarrow> (Rejected e, h)
      | Inr (db, h1) \<Rightarrow>
          (case transaction db [storeName] of
             Inl e \<Rightarrow> (Rejected e, h1)
           | Inr tx \<Rightarrow>
               (case stores tx storeName of
                  None \<Rightarrow> (Rejected NotFoundError, h1)
                | Some st \<Rightarrow>
                    (case requestToPromise f (get_rec key (recs st)) of
                       Inl e \<Rightarrow> (Rejected e, h1)
                     | Inr val \<Rightarrow>
                         (case txDone f of
                            Inl e \<Rightarrow> (Rejected e, h1)
                          | Inr u \<Rightarrow> (Resolved val, close dbName h1))))))"

definition deleteKey ::
  "'n host \<Rightarrow> fault \<Rightarrow> string \<Rightarrow> string \<Rightarrow> idbkey \<Rightarrow> unit outcome \<times> 'n host" where
  "deleteKey h f dbName storeName key =
     (case openDb h f dbName storeName of
        Inl e \<Rightarrow> (Rejected e, h)
      | Inr (db, h1) \<Rightarrow>
          (case transaction db [storeName] of
             Inl e \<Rightarrow> (Rejected e, h1)
           | Inr tx \<Rightarrow>
               (case stores tx storeName of
                  None \<Rightarrow> (Rejected NotFoundError, h1)
                | Some st \<Rightarrow>
                    (case txDone f of
                       Inl e \<Rightarrow> (Rejected e, h1)
                     | Inr u \<Rightarrow>
                         (Resolved (),
                          close dbName
                            (commit dbName (tx\<lparr>stores := (stores tx)(storeName \<mapsto> store_delete key st)\<rparr>) h1))))))"

subsection \<open>Cursor scans\<close>

text \<open>
  \<open>store.openCursor()\<close> and the \<open>cursor.continue()\<close> calls: the records the cursor
  yields, and whether it ends by reporting exhaustion (\<open>True\<close>) or by a failed request.
\<close>

definition openCursor :: "fault \<Rightarrow> 'a list \<Rightarrow> 'a list \<times> bool" where
  "openCursor f rs = (case f of TxFault n \<Rightarrow> (take n rs, False) | _ \<Rightarrow> (rs, True))"

text \<open>
  The \<open>onsuccess\<close> handler of the read cursor, once per yielded record: the predicate
  may throw, which leaves the handler at once.
\<close>

fun read_cursor ::
  "('n stored \<Rightarrow> error + bool) \<Rightarrow> (idbkey \<times> 'n stored) list \<Rightarrow> 'n stored list
     \<Rightarrow> error + 'n stored list" where
  "read_cursor filterFn [] records = Inr records"
| "read_cursor filterFn ((k, v) # rs) records =
     (case filterFn v of
        Inl e \<Rightarrow> Inl e
      | Inr b \<Rightarrow> read_cursor filterFn rs (if b then records @ [v] else records))"

text \<open>
  \<open>readMultipleRecords\<close> and \<open>deleteMultipleRecords\<close> open the database without
  version and without \<open>onupgradeneeded\<close> handler. \<open>request.onerror\<close> rejects with the
  error of the open request, \<open>transaction.onerror\<close> with the error of the failed request
  (both also write to the console, which is not modelled for the scans). The branches
  for a null \<open>event.target\<close> are never taken: the target of the event is the request.
  An exception in \<open>request.onsuccess\<close> (from \<open>db.transaction\<close>) or in the cursor's
  handler (from \<open>filterFn\<close>) is outside the promise's executor: nothing settles the
  promise. The engine aborts a transaction whose handler threw. The handle is never
  closed. The promise is resolved by the handler call that sees the exhausted cursor.
\<close>

definition readMultipleRecords ::
  "'n host \<Rightarrow> fault \<Rightarrow> string \<Rightarrow> string \<Rightarrow> ('n stored \<Rightarrow> error + bool)
     \<Rightarrow> 'n stored list outcome \<times> 'n host" where
  "readMultipleRecords h f dbName storeName filterFn =
     (case idb_open h f dbName None id of
        Inl e \<Rightarrow> (Rejected e, h)
      | Inr (db, h1) \<Rightarrow>
          (case transaction db [storeName] of
             Inl e \<Rightarrow> (Unsettled e, h1)
           | Inr tx \<Rightarrow>
               (case stores tx storeName of
                  None \<Rightarrow> (Unsettled NotFoundError, h1)
                | Some st \<Rightarrow>
                    (case openCursor f (recs st) of
                       (yielded, exhausted) \<Rightarrow>
                         (case read_cursor filterFn yielded [] of
                            Inl e \<Rightarrow> (Unsettled e, h1)
                          | Inr records \<Rightarrow>
                              if exhausted then (Resolved records, h1)
                              else (Rejected HostFailure, h1))))))"

fun delete_cursor ::
  "('n stored \<Rightarrow> error + bool) \<Rightarrow> (idbkey \<times> 'n stored) list \<Rightarrow> 'n objstore
     \<Rightarrow> error + 'n objstore" where
  "delete_cursor filterFn [] st = Inr st"
| "delete_cursor filterFn ((k, v) # rs) st =
     (case filterFn v of
        Inl e \<Rightarrow> Inl e
      | Inr b \<Rightarrow> delete_cursor filterFn rs (if b then store_delete k st else st))"

definition deleteMultipleRecords ::
  "'n host \<Rightarrow> fault \<Rightarrow> string \<Rightarrow> string \<Rightarrow> ('n stored \<Rightarrow> error + bool)
     \<Rightarrow> unit outcome \<times> 'n host" where
  "deleteMultipleRecords h f dbName storeName filterFn =
     (case idb_open h f dbName None id of
        Inl e \<Rightarrow> (Rejected e, h)
      | Inr (db, h1) \<Rightarrow>
          (case transaction db [storeName] of
             Inl e \<Rightarrow> (Unsettled e, h1)
           | Inr tx \<Rightarrow>
               (case stores tx storeName of
                  None \<Rightarrow> (Unsettled NotFoundError, h1)
                | Some st \<Rightarrow>
                    (case openCursor f (recs st) of
                       (yielded, exhausted) \<Rightarrow>
                         (case delete_cursor filterFn yielded st of
                            Inl e \<Rightarrow> (Unsettled e, h1)
                          | Inr st' \<Rightarrow>
                              if exhausted
                              then (Resolved (),
                                    commit dbName (tx\<lparr>stores := (stores tx)(storeName \<mapsto> st')\<rparr>) h1)
                              else (Rejected HostFailure, h1))))))"

subsection \<open>Notifiers\<close>

text \<open>
  One pass of \<open>pollForChanges\<close>: the entries for which the callback was invoked, in the
  order of the calls, each with its \<open>cursor.primaryKey\<close>; the set \<open>seenChanges\<close>
  afterwards; what went to \<open>console.error\<close>; and whether \<open>setTimeout\<close> has scheduled
  the next pass.
\<close>

record 'n pass =
  delivered :: "(idbkey \<times> 'n stored) list"
  seenChanges :: "idbkey set"
  logged :: "string list"
  rescheduled :: bool

text \<open>
  \<open>seenChanges\<close> is a JavaScript \<open>Set\<close>: it compares numbers and strings by value and
  objects by identity. \<open>cursor.primaryKey\<close> makes its value from the stored key anew at
  every position of every cursor, so a date, binary or array key arrives as an object
  that no earlier call of \<open>add\<close> has put into the set: \<open>has\<close> is false for it. The model
  keeps the set as the set of the keys that were added.
\<close>

definition Set_has :: "idbkey set \<Rightarrow> idbkey \<Rightarrow> bool" where
  "Set_has seen k = (primitive_key k \<and> k \<in> seen)"

text \<open>
  The cursor's \<open>onsuccess\<close> handler of both notifiers. The callback returns (\<open>None\<close>)
  or throws; a throw leaves the handler after the key was added and the callback was
  invoked, and the scan stops there (\<open>False\<close>).
\<close>

fun notify_cursor ::
  "('n stored \<Rightarrow> error option) \<Rightarrow> (idbkey \<times> 'n stored) list \<Rightarrow> idbkey set
     \<Rightarrow> (idbkey \<times> 'n stored) list \<Rightarrow> bool \<times> idbkey set \<times> (idbkey \<times> 'n stored) list" where
  "notify_cursor callback [] seen out = (True, seen, out)"
| "notify_cursor callback ((k, v) # rs) seen out =
     (if \<not> Set_has seen k then
        (case callback v of
           None \<Rightarrow> notify_cursor callback rs (insert k seen) (out @ [(k, v)])
         | Some e \<Rightarrow> (False, insert k seen, out @ [(k, v)]))
      else notify_cursor callback rs seen out)"

text \<open>
  \<open>pollForChanges\<close> of \<open>onNewRecord\<close>. The open request has no \<open>onerror\<close> handler and
  the transaction no \<open>onerror\<close> handler. The branch \<open>if (!db)\<close> is never taken: the
  result of a successful open request is the database. The next pass is scheduled in
  \<open>transaction.oncomplete\<close> and nowhere else; a transaction that does not exist
  (\<open>db.transaction\<close> threw), that was aborted because the callback threw, or whose
  cursor request failed never completes.
\<close>

definition pollForChanges ::
  "string \<Rightarrow> ('n stored \<Rightarrow> error option) \<Rightarrow> 'n host \<Rightarrow> fault \<Rightarrow> idbkey set
     \<Rightarrow> 'n pass \<times> 'n host" where
  "pollForChanges dbName callback h f seen =
     (case idb_open h f dbName None id of
        Inl e \<Rightarrow> (\<lparr>delivered = [], seenChanges = seen, logged = [], rescheduled = False\<rparr>, h)
      | Inr (db, h1) \<Rightarrow>
          (case transaction db [''changeLog''] of
             Inl e \<Rightarrow>
               (\<lparr>delivered = [], seenChanges = seen, logged = [], rescheduled = False\<rparr>, h1)
           | Inr tx \<Rightarrow>
               (case stores tx ''changeLog'' of
                  None \<Rightarrow>
                    (\<lparr>delivered = [], seenChanges = seen, logged = [], rescheduled = False\<rparr>, h1)
                | Some st \<Rightarrow>
                    (case openCursor f (recs st) of
                       (yielded, exhausted) \<Rightarrow>
                         (case notify_cursor callback yielded seen [] of
                            (returned, seen', out) \<Rightarrow>
                              (\<lparr>delivered = out, seenChanges = seen', logged = [],
                                rescheduled = (returned \<and> exhausted)\<rparr>, h1))))))"

text \<open>
  \<open>pollForChanges\<close> of \<open>onNewRecordWithLog\<close>: the same pass, with an \<open>onerror\<close> handler
  on the open request and one on the transaction, both of which only log. The branch
  \<open>if (!successEvent)\<close> is never taken.
\<close>

definition pollForChangesWithLog ::
  "string \<Rightarrow> ('n stored \<Rightarrow> error option) \<Rightarrow> 'n host \<Rightarrow> fault \<Rightarrow> idbkey set
     \<Rightarrow> 'n pass \<times> 'n host" where
  "pollForChangesWithLog dbName callback h f seen =
     (case idb_open h f dbName None id of
        Inl e \<Rightarrow>
          (\<lparr>delivered = [], seenChanges = seen, logged = [''Error opening database:''],
            rescheduled = False\<rparr>, h)
      | Inr (db, h1) \<Rightarrow>
          (case transaction db [''changeLog''] of
             Inl e \<Rightarrow>
               (\<lparr>delivered = [], seenChanges = seen, logged = [], rescheduled = False\<rparr>, h1)
           | Inr tx \<Rightarrow>
               (case stores tx ''changeLog'' of
                  None \<Rightarrow>
                    (\<lparr>delivered = [], seenChanges = seen, logged = [], rescheduled = False\<rparr>, h1)
                | Some st \<Rightarrow>
                    (case openCursor f (recs st) of
                       (yielded, exhausted) \<Rightarrow>
                         (case notify_cursor callback yielded seen [] of
                            (returned, seen', out) \<Rightarrow>
                              (\<lparr>delivered = out, seenChanges = seen',
                                logged = (if returned \<and> \<not> exhausted then [''Transaction error:''] else []),
                                rescheduled = (returned \<and> exhausted)\<rparr>, h1))))))"

text \<open>
  The life of an observer: the passes it makes, one for each state of the engine (and
  fault) that it meets when its timer fires, for as long as the pass before has
  scheduled the next one. \<open>seenChanges\<close> lives across the passes. The engine states
  are an input, since other callers write between two passes.
\<close>

fun observe ::
  "('n host \<Rightarrow> fault \<Rightarrow> idbkey set \<Rightarrow> 'n pass \<times> 'n host) \<Rightarrow> idbkey set
     \<Rightarrow> ('n host \<times> fault) list \<Rightarrow> 'n pass list" where
  "observe poll seen [] = []"
| "observe poll seen ((h, f) # env) =
     (let p = fst (poll h f seen)
      in p # (if rescheduled p then observe poll (seenChanges p) env else []))"

definition onNewRecord ::
  "string \<Rightarrow> ('n stored \<Rightarrow> error option) \<Rightarrow> ('n host \<times> fault) list \<Rightarrow> 'n pass list" where
  "onNewRecord dbName callback env = observe (pollForChanges dbName callback) {} env"

definition onNewRecordWithLog ::
  "string \<Rightarrow> ('n stored \<Rightarrow> error option) \<Rightarrow> ('n host \<times> fault) list \<Rightarrow> 'n pass list" where
  "onNewRecordWithLog dbName callback env = observe (pollForChangesWithLog dbName callback) {} env"

section \<open>Well-formed engine states\<close>

text \<open>
  What the engine guarantees of every store: its records are in strictly ascending key
  order, and a store with a key generator holds only keys that the generator has
  handed out, all below its current number.
\<close>

definition wf_store :: "'n objstore \<Rightarrow> bool" where
  "wf_store st \<longleftrightarrow>
     sorted_wrt key_less (map fst (recs st)) \<and>
     (autoInc st \<longrightarrow> (\<forall>k \<in> set (map fst (recs st)). key_less k (KNum (keyGen st))))"

definition wf_database :: "'n database \<Rightarrow> bool" where
  "wf_database db \<longleftrightarrow> (\<forall>s st. stores db s = Some st \<longrightarrow> wf_store st)"

definition wf_host :: "'n host \<Rightarrow> bool" where
  "wf_host h \<longleftrightarrow> (\<forall>d db. dbs h d = Some db \<longrightarrow> wf_database db)"

text \<open>The records of a store as a scan sees them; none when the store does not exist.\<close>

definition store_recs :: "'n host \<Rightarrow> string \<Rightarrow> string \<Rightarrow> (idbkey \<times> 'n stored) list" where
  "store_recs h dbName storeName =
     (case dbs h dbName of
        None \<Rightarrow> []
      | Some db \<Rightarrow> (case stores db storeName of None \<Rightarrow> [] | Some st \<Rightarrow> recs st))"

definition has_store :: "'n host \<Rightarrow> string \<Rightarrow> string \<Rightarrow> bool" where
  "has_store h dbName storeName =
     (case dbs h dbName of None \<Rightarrow> False | Some db \<Rightarrow> stores db storeName \<noteq> None)"

text \<open>
  The number that the key generator of \<open>changeLog\<close> hands out next; a generator
  starts at 1.
\<close>

definition key_generator :: "'n host \<Rightarrow> string \<Rightarrow> int" where
  "key_generator h dbName =
     (case dbs h dbName of
        None \<Rightarrow> 1
      | Some db \<Rightarrow> (case stores db ''changeLog'' of None \<Rightarrow> 1 | Some st \<Rightarrow> keyGen st))"

definition empty_host :: "'n host" where
  "empty_host = \<lparr>dbs = Map.empty, conns = []\<rparr>"

section \<open>The data of the test suite\<close>

text \<open>
  The records of the repository's tests, \<open>{id: 1, name: 'Alice'}\<close> and so on, the
  tests' predicates \<open>record && record.id > n\<close> and \<open>record && record.id <= n\<close>, and
  the engine after the tests' three calls of \<open>writeJson\<close> on a fresh database.
\<close>

definition person :: "int \<Rightarrow> string \<Rightarrow> int JsonValue" where
  "person i n = JObj [(''id'', JNum i), (''name'', JStr n)]"

fun record_id :: "int stored \<Rightarrow> int option" where
  "record_id (Plain (JObj ((a, JNum i) # fs))) = (if a = ''id'' then Some i else None)"
| "record_id v = None"

definition id_above :: "int \<Rightarrow> int stored \<Rightarrow> error + bool" where
  "id_above n v = Inr (case record_id v of None \<Rightarrow> False | Some i \<Rightarrow> n < i)"

definition id_upto :: "int \<Rightarrow> int stored \<Rightarrow> error + bool" where
  "id_upto n v = Inr (case record_id v of None \<Rightarrow> False | Some i \<Rightarrow> i \<le> n)"

definition always_true :: "int stored \<Rightarrow> error + bool" where
  "always_true v = Inr True"

definition throws_on :: "int stored \<Rightarrow> int stored \<Rightarrow> error + bool" where
  "throws_on bad v = (if v = bad then Inl (UserError ''predicate failed'') else Inr True)"

definition returns :: "int stored \<Rightarrow> error option" where
  "returns v = None"

definition test_host :: "int host" where
  "test_host =
     snd (writeJson
       (snd (writeJson
         (snd (writeJson empty_host NoFault ''testdb'' ''teststore'' (KStr ''key1'') (person 1 ''Alice'')))
         NoFault ''testdb'' ''teststore'' (KStr ''key2'') (person 2 ''Bob'')))
       NoFault ''testdb'' ''teststore'' (KStr ''key3'') (person 3 ''Charlie''))"


section \<open>Properties of the engine\<close>

lemmas engine_defs = openDb_def idb_open_def onupgradeneeded_def
  createObjectStore_def transaction_def objectStore_put_def objectStore_add_def store_put_def
  store_add_def store_delete_def txDone_def requestToPromise_def autoCommit_def commit_def close_def get_rec_def
  del_rec_def empty_host_def openCursor_def

lemma test_host_eq:
  "test_host =
     \<lparr>dbs = [''testdb'' \<mapsto>
        \<lparr>version = 1,
         stores = [''teststore'' \<mapsto>
             \<lparr>autoInc = False, keyGen = 1,
              recs = [(KStr ''key1'', Plain (person 1 ''Alice'')),
                      (KStr ''key2'', Plain (person 2 ''Bob'')),
                      (KStr ''key3'', Plain (person 3 ''Charlie''))]\<rparr>,
           ''changeLog'' \<mapsto>
             \<lparr>autoInc = True, keyGen = 4,
              recs = [(KNum 1, Entry 1 ''teststore'' (KStr ''key1'') (person 1 ''Alice'')),
                      (KNum 2, Entry 2 ''teststore'' (KStr ''key2'') (person 2 ''Bob'')),
                      (KNum 3, Entry 3 ''teststore'' (KStr ''key3'') (person 3 ''Charlie''))]\<rparr>]\<rparr>],
      conns = []\<rparr>"
  by (simp add: test_host_def writeJson_def engine_defs Let_def)

subsection \<open>The key order\<close>

lemma keys_less_irrefl: "\<forall>x \<in> set xs. \<not> key_less x x \<Longrightarrow> \<not> keys_less xs xs"
  by (induction xs) auto

lemma key_less_irrefl: "\<not> key_less k k"
  by (induction k) (auto simp: keys_less_irrefl)

lemma keys_less_total:
  "\<forall>x \<in> set xs. \<forall>y. key_less x y \<or> x = y \<or> key_less y x \<Longrightarrow>
   keys_less xs ys \<or> xs = ys \<or> keys_less ys xs"
proof (induction xs arbitrary: ys)
  case Nil
  then show ?case by (cases ys) simp_all
next
  case (Cons x xs)
  show ?case
  proof (cases ys)
    case Nil
    then show ?thesis by simp
  next
    case (Cons y ys')
    from Cons.prems have h: "key_less x y \<or> x = y \<or> key_less y x" by simp
    have "keys_less xs ys' \<or> xs = ys' \<or> keys_less ys' xs"
      using Cons.IH [of ys'] Cons.prems by simp
    with h show ?thesis unfolding Cons by auto
  qed
qed

lemma key_less_total: "key_less a b \<or> a = b \<or> key_less b a"
proof (induction a arbitrary: b)
  case (KNum x)
  show ?case by (cases b; simp) (rule less_linear)
next
  case (KDate x)
  show ?case by (cases b; simp) (rule less_linear)
next
  case (KStr x)
  show ?case by (cases b; simp) (rule less_linear)
next
  case (KBin x)
  show ?case by (cases b; simp) (rule less_linear)
next
  case (KArr xs)
  then have "\<forall>x \<in> set xs. \<forall>y. key_less x y \<or> x = y \<or> key_less y x" by blast
  from keys_less_total [OF this, of "case b of KArr ys \<Rightarrow> ys | _ \<Rightarrow> []"] show ?case
    by (cases b; simp)
qed

lemma keys_less_trans:
  "\<forall>x \<in> set xs. \<forall>y z. key_less x y \<longrightarrow> key_less y z \<longrightarrow> key_less x z \<Longrightarrow>
   keys_less xs ys \<Longrightarrow> keys_less ys zs \<Longrightarrow> keys_less xs zs"
proof (induction xs arbitrary: ys zs)
  case Nil
  then show ?case by (cases ys; cases zs) simp_all
next
  case (Cons x xs)
  from Cons.prems(2) obtain y ys' where ys: "ys = y # ys'" by (cases ys) simp_all
  from Cons.prems(3) ys obtain z zs' where zs: "zs = z # zs'" by (cases zs) simp_all
  from Cons.prems(1) have t: "\<And>y z. key_less x y \<Longrightarrow> key_less y z \<Longrightarrow> key_less x z"
    by simp
  have ih: "keys_less xs zs'" if "keys_less xs ys'" "keys_less ys' zs'"
    using Cons.IH [OF _ that] Cons.prems(1) by simp
  from Cons.prems(2) have a: "key_less x y \<or> (x = y \<and> keys_less xs ys')" by (simp add: ys)
  from Cons.prems(3) have b: "key_less y z \<or> (y = z \<and> keys_less ys' zs')" by (simp add: ys zs)
  from a b t ih have "key_less x z \<or> (x = z \<and> keys_less xs zs')" by blast
  then show ?case by (simp add: zs)
qed

lemma key_less_trans: "key_less a b \<Longrightarrow> key_less b c \<Longrightarrow> key_less a c"
proof (induction a arbitrary: b c)
  case (KNum x)
  then show ?case by (cases b; cases c) simp_all
next
  case (KDate x)
  then show ?case by (cases b; cases c) simp_all
next
  case (KStr x)
  then show ?case by (cases b; cases c; simp)
next
  case (KBin x)
  then show ?case by (cases b; cases c; simp)
next
  case (KArr xs)
  then have "\<forall>x \<in> set xs. \<forall>y z. key_less x y \<longrightarrow> key_less y z \<longrightarrow> key_less x z" by blast
  from keys_less_trans [OF this] KArr.prems show ?case by (cases b; cases c; simp)
qed

lemma key_less_asym: "key_less a b \<Longrightarrow> \<not> key_less b a"
  using key_less_trans [of a b a] key_less_irrefl [of a] by blast

subsection \<open>Records\<close>

lemma set_put_rec: "fst ` set (put_rec k v rs) = insert k (fst ` set rs)"
proof (induction rs)
  case Nil
  show ?case by simp
next
  case (Cons r rs)
  obtain k' v' where r: "r = (k', v')" by (cases r)
  from Cons show ?case unfolding r by (simp add: insert_commute)
qed

lemma sorted_put_rec:
  "sorted_wrt key_less (map fst rs) \<Longrightarrow> sorted_wrt key_less (map fst (put_rec k v rs))"
proof (induction rs)
  case Nil
  then show ?case by simp
next
  case (Cons r rs)
  obtain k' v' where r: "r = (k', v')" by (cases r)
  show ?case
  proof (cases "key_less k k'")
    case True
    with Cons.prems r show ?thesis by (auto intro: key_less_trans)
  next
    case False
    note nl = this
    show ?thesis
    proof (cases "k = k'")
      case True
      with Cons.prems r nl show ?thesis by auto
    next
      case False
      with nl key_less_total [of k k'] have gt: "key_less k' k" by blast
      have "\<forall>x \<in> fst ` set (put_rec k v rs). key_less k' x"
        unfolding set_put_rec using Cons.prems r gt by auto
      with Cons r nl False show ?thesis by auto
    qed
  qed
qed

lemma map_of_put_rec_same: "map_of (put_rec k v rs) k = Some v"
  by (induction rs) auto

lemma put_rec_append:
  "\<forall>x \<in> set (map fst rs). key_less x k \<Longrightarrow> put_rec k v rs = rs @ [(k, v)]"
  by (induction rs) (auto dest: key_less_asym simp: key_less_irrefl)

lemma sorted_del_rec:
  "sorted_wrt key_less (map fst rs) \<Longrightarrow> sorted_wrt key_less (map fst (del_rec k rs))"
  by (induction rs) (auto simp: del_rec_def)

subsection \<open>The read cursor\<close>

lemma read_cursor_acc:
  "read_cursor p rs acc = Inr out \<Longrightarrow> out = acc @ filter (\<lambda>v. p v = Inr True) (map snd rs)"
  by (induction p rs acc rule: read_cursor.induct) (auto split: sum.splits if_splits)

lemma read_cursor_total:
  "\<forall>v \<in> set (map snd rs). \<exists>b. p v = Inr b \<Longrightarrow>
   read_cursor p rs acc = Inr (acc @ filter (\<lambda>v. p v = Inr True) (map snd rs))"
  by (induction p rs acc rule: read_cursor.induct) (auto split: sum.splits if_splits)

subsection \<open>Opening a database\<close>

lemma idb_open_host:
  "idb_open h f d ver hook = Inr (db, h1) \<Longrightarrow>
   h1 = h\<lparr>dbs := (dbs h)(d \<mapsto> db), conns := d # conns h\<rparr>"
  by (auto simp: idb_open_def Let_def map_upd_triv split: if_splits option.splits)

lemma idb_open_id_db:
  "idb_open h f d None id = Inr (db, h1) \<Longrightarrow>
   db = (case dbs h d of None \<Rightarrow> \<lparr>version = 1, stores = Map.empty\<rparr> | Some db0 \<Rightarrow> db0)"
  by (auto simp: idb_open_def Let_def split: if_splits option.splits)

lemma idb_open_id_ok:
  "f \<noteq> OpenFault \<Longrightarrow> \<exists>db h1. idb_open h f d None id = Inr (db, h1)"
  by (auto simp: idb_open_def Let_def split: if_splits option.splits)

lemma idb_open_fault: "idb_open h OpenFault d ver hook = Inl HostFailure"
  by (simp add: idb_open_def)

lemma onupgradeneeded_stores:
  "stores (onupgradeneeded s db) s' =
     (if stores db s' \<noteq> None then stores db s'
      else if s' = s then Some \<lparr>autoInc = False, keyGen = 1, recs = []\<rparr>
      else if s' = ''changeLog'' then Some \<lparr>autoInc = True, keyGen = 1, recs = []\<rparr>
      else None)"
  by (auto simp: onupgradeneeded_def createObjectStore_def Let_def)

lemma openDb_db:
  "openDb h f d s = Inr (db, h1) \<Longrightarrow>
   (dbs h d = None \<and> db = onupgradeneeded s \<lparr>version = 1, stores = Map.empty\<rparr>) \<or>
   (\<exists>db0. dbs h d = Some db0 \<and> version db0 = 1 \<and> db = db0) \<or>
   (\<exists>db0. dbs h d = Some db0 \<and> version db0 = 0 \<and> db = onupgradeneeded s (db0\<lparr>version := 1\<rparr>))"
  by (auto simp: openDb_def idb_open_def Let_def split: if_splits option.splits)

lemma openDb_recs:
  assumes "openDb h f d s = Inr (db, h1)"
  shows "store_recs h1 d' s' = store_recs h d' s'"
proof -
  have h1: "h1 = h\<lparr>dbs := (dbs h)(d \<mapsto> db), conns := d # conns h\<rparr>"
    using assms by (simp add: openDb_def idb_open_host)
  from openDb_db [OF assms] show ?thesis
    by (auto simp: h1 store_recs_def onupgradeneeded_stores split: option.splits if_splits)
qed


subsection \<open>What a successful write has done\<close>

lemma writeJson_Resolved:
  assumes "writeJson h f d c k v = (Resolved (), h')"
  shows "\<exists>db h1 st cl.
           openDb h f d c = Inr (db, h1) \<and> c \<noteq> ''changeLog'' \<and>
           stores db c = Some st \<and> \<not> autoInc st \<and>
           stores db ''changeLog'' = Some cl \<and> autoInc cl \<and>
           get_rec (KNum (keyGen cl)) (recs cl) = None \<and>
           h' = close d (commit d
                  (db\<lparr>stores := (stores db)
                       (c \<mapsto> st\<lparr>recs := put_rec k (Plain v) (recs st)\<rparr>,
                        ''changeLog'' \<mapsto> cl\<lparr>keyGen := keyGen cl + 1,
                           recs := put_rec (KNum (keyGen cl)) (Entry (keyGen cl) c k v) (recs cl)\<rparr>)\<rparr>)
                  h1)"
proof -
  from assms obtain db h1 where op: "openDb h f d c = Inr (db, h1)"
    by (auto simp: writeJson_def split: sum.splits)
  from assms op obtain tx1 where
    put: "objectStore_put c v k db = Inr tx1" and ex: "stores db ''changeLog'' \<noteq> None"
    by (auto simp: writeJson_def transaction_def split: sum.splits if_splits)
  from put obtain st where st: "stores db c = Some st" "\<not> autoInc st"
    and tx1: "tx1 = db\<lparr>stores := (stores db)(c \<mapsto> st\<lparr>recs := put_rec k (Plain v) (recs st)\<rparr>)\<rparr>"
    by (auto simp: objectStore_put_def store_put_def split: option.splits if_splits)
  from assms op put ex obtain tx2 where
    add: "objectStore_add ''changeLog'' c k v tx1 = ReqOk tx2"
    and h': "h' = close d (commit d tx2 h1)"
    by (auto simp: writeJson_def transaction_def st txDone_def
        split: sum.splits if_splits request.splits fault.splits)
  have ne: "c \<noteq> ''changeLog''"
  proof
    assume "c = ''changeLog''"
    with add st tx1 show False
      by (auto simp: objectStore_add_def store_add_def split: if_splits)
  qed
  from ex obtain cl where cl: "stores db ''changeLog'' = Some cl" by auto
  from add ne cl tx1 have "autoInc cl" "get_rec (KNum (keyGen cl)) (recs cl) = None"
    and "tx2 = tx1\<lparr>stores := (stores tx1)(''changeLog'' \<mapsto> cl\<lparr>keyGen := keyGen cl + 1,
      recs := put_rec (KNum (keyGen cl)) (Entry (keyGen cl) c k v) (recs cl)\<rparr>)\<rparr>"
    by (auto simp: objectStore_add_def store_add_def split: if_splits)
  with op ne st cl h' tx1 show ?thesis by simp
qed


lemma openDb_key_generator:
  assumes "openDb h f d s = Inr (db, h1)"
  shows "key_generator h1 d' = key_generator h d'"
proof -
  have h1: "h1 = h\<lparr>dbs := (dbs h)(d \<mapsto> db), conns := d # conns h\<rparr>"
    using assms by (simp add: openDb_def idb_open_host)
  from openDb_db [OF assms] show ?thesis
    by (auto simp: h1 key_generator_def onupgradeneeded_stores split: option.splits if_splits)
qed

subsection \<open>Well-formed states are preserved\<close>

lemma wf_store_fresh: "wf_store \<lparr>autoInc = ai, keyGen = 1, recs = []\<rparr>"
  by (simp add: wf_store_def)

lemma wf_onupgradeneeded: "wf_database db \<Longrightarrow> wf_database (onupgradeneeded s db)"
  unfolding wf_database_def onupgradeneeded_stores
  by (auto simp: wf_store_fresh split: if_splits)

lemma wf_openDb:
  assumes "openDb h f d s = Inr (db, h1)" and "wf_host h"
  shows "wf_host h1 \<and> wf_database db"
proof -
  have h1: "h1 = h\<lparr>dbs := (dbs h)(d \<mapsto> db), conns := d # conns h\<rparr>"
    using assms by (simp add: openDb_def idb_open_host)
  have e: "wf_database \<lparr>version = 1, stores = Map.empty\<rparr>"
    by (simp add: wf_database_def)
  have v: "\<And>db0. wf_database db0 \<Longrightarrow> wf_database (db0\<lparr>version := 1\<rparr>)"
    by (simp add: wf_database_def)
  have "wf_database db"
    using openDb_db [OF assms(1)]
  proof (elim disjE conjE exE)
    assume "db = onupgradeneeded s \<lparr>version = 1, stores = Map.empty\<rparr>"
    with wf_onupgradeneeded [OF e] show ?thesis by simp
  next
    fix db0 assume "dbs h d = Some db0" "db = db0"
    with assms(2) show ?thesis by (auto simp: wf_host_def)
  next
    fix db0 assume "dbs h d = Some db0" "db = onupgradeneeded s (db0\<lparr>version := 1\<rparr>)"
    moreover from this assms(2) have "wf_database db0" by (auto simp: wf_host_def)
    ultimately show ?thesis using wf_onupgradeneeded [OF v] by simp
  qed
  with assms(2) show ?thesis by (auto simp: h1 wf_host_def)
qed

lemma wf_idb_open_id:
  assumes "idb_open h f d None id = Inr (db, h1)" and "wf_host h"
  shows "wf_host h1 \<and> wf_database db"
proof -
  have h1: "h1 = h\<lparr>dbs := (dbs h)(d \<mapsto> db), conns := d # conns h\<rparr>"
    using assms by (simp add: idb_open_host)
  have "wf_database db"
    using idb_open_id_db [OF assms(1)] assms(2)
    by (auto simp: wf_host_def wf_database_def split: option.splits)
  with assms(2) show ?thesis by (auto simp: h1 wf_host_def)
qed

lemma wf_store_put:
  "wf_store st \<Longrightarrow> \<not> autoInc st \<Longrightarrow> wf_store (st\<lparr>recs := put_rec k v (recs st)\<rparr>)"
  by (simp add: wf_store_def sorted_put_rec)

lemma wf_store_add:
  assumes "wf_store st" and "autoInc st"
  shows "wf_store (st\<lparr>keyGen := keyGen st + 1, recs := put_rec (KNum (keyGen st)) e (recs st)\<rparr>)"
proof -
  have "\<forall>x \<in> fst ` set (recs st). key_less x (KNum (keyGen st + 1))"
    using assms by (auto simp: wf_store_def intro: key_less_trans [where b = "KNum (keyGen st)"])
  with assms show ?thesis
    by (simp add: wf_store_def sorted_put_rec set_put_rec)
qed

lemma set_del_rec: "set (del_rec k rs) = {r \<in> set rs. fst r \<noteq> k}"
  by (auto simp: del_rec_def)

lemma wf_store_delete: "wf_store st \<Longrightarrow> wf_store (store_delete k st)"
  by (auto simp: wf_store_def store_delete_def sorted_del_rec set_del_rec)

lemma wf_commit:
  "wf_host h \<Longrightarrow> wf_database tx \<Longrightarrow> wf_host (commit d tx h)"
  by (auto simp: wf_host_def commit_def)

lemma wf_close: "wf_host (close d h) = wf_host h"
  by (simp add: wf_host_def close_def)

lemma wf_database_upd:
  "wf_database db \<Longrightarrow> wf_store st \<Longrightarrow> wf_database (db\<lparr>stores := (stores db)(s \<mapsto> st)\<rparr>)"
  by (auto simp: wf_database_def)

lemma wf_database_store: "wf_database db \<Longrightarrow> stores db s = Some st \<Longrightarrow> wf_store st"
  by (auto simp: wf_database_def)

lemma wf_empty_host: "wf_host empty_host"
  by (simp add: wf_host_def empty_host_def)

lemma wf_writeJson:
  assumes "wf_host h"
  shows "wf_host (snd (writeJson h f d c k v))"
proof (cases "openDb h f d c")
  case (Inl e)
  with assms show ?thesis by (simp add: writeJson_def)
next
  case (Inr p)
  obtain db h1 where p: "p = (db, h1)" by (cases p)
  from wf_openDb [OF Inr [unfolded p] assms] have w1: "wf_host h1" and wd: "wf_database db"
    by auto
  have put: "\<And>tx1. objectStore_put c v k db = Inr tx1 \<Longrightarrow> wf_database tx1"
    using wd
    by (auto simp: objectStore_put_def store_put_def
        intro!: wf_database_upd wf_store_put dest: wf_database_store
        split: option.splits if_splits)
  have add: "\<And>tx1 tx2. wf_database tx1 \<Longrightarrow> objectStore_add ''changeLog'' c k v tx1 = ReqOk tx2
      \<Longrightarrow> wf_database tx2"
    by (auto simp: objectStore_add_def store_add_def
        intro!: wf_database_upd wf_store_add dest: wf_database_store
        split: option.splits if_splits)
  show ?thesis
    using w1 put add
    by (auto simp: writeJson_def Inr p autoCommit_def wf_close transaction_def
        intro!: wf_commit
        split: sum.splits request.splits fault.splits)
qed

lemma wf_test_host: "wf_host test_host"
  unfolding test_host_def by (intro wf_writeJson wf_empty_host)

lemma openDb_dbs:
  "openDb h f d c = Inr (db, h1) \<Longrightarrow> dbs h1 d = Some db"
  by (auto simp: openDb_def dest!: idb_open_host)

lemma version_onupgradeneeded: "version (onupgradeneeded s db) = version db"
  by (simp add: onupgradeneeded_def createObjectStore_def Let_def)

lemma openDb_version: "openDb h f d s = Inr (db, h1) \<Longrightarrow> version db = 1"
  by (auto dest!: openDb_db simp: version_onupgradeneeded)

lemma openDb_existing:
  "dbs h d = Some db \<Longrightarrow> version db = 1 \<Longrightarrow>
   openDb h NoFault d s = Inr (db, h\<lparr>conns := d # conns h\<rparr>)"
  by (simp add: openDb_def idb_open_def)

lemma test_write_eval:
  "writeJson test_host NoFault ''testdb'' ''teststore'' (KStr ''key4'') (person 4 ''Dan'') =
     (Resolved (),
      \<lparr>dbs = [''testdb'' \<mapsto>
        \<lparr>version = 1,
         stores = [''teststore'' \<mapsto>
             \<lparr>autoInc = False, keyGen = 1,
              recs = [(KStr ''key1'', Plain (person 1 ''Alice'')),
                      (KStr ''key2'', Plain (person 2 ''Bob'')),
                      (KStr ''key3'', Plain (person 3 ''Charlie'')),
                      (KStr ''key4'', Plain (person 4 ''Dan''))]\<rparr>,
           ''changeLog'' \<mapsto>
             \<lparr>autoInc = True, keyGen = 5,
              recs = [(KNum 1, Entry 1 ''teststore'' (KStr ''key1'') (person 1 ''Alice'')),
                      (KNum 2, Entry 2 ''teststore'' (KStr ''key2'') (person 2 ''Bob'')),
                      (KNum 3, Entry 3 ''teststore'' (KStr ''key3'') (person 3 ''Charlie'')),
                      (KNum 4, Entry 4 ''teststore'' (KStr ''key4'') (person 4 ''Dan''))]\<rparr>]\<rparr>],
      conns = []\<rparr>)"
  by (simp add: test_host_eq writeJson_def engine_defs Let_def)

lemma test_write_fault_eval:
  "fst (writeJson test_host (TxFault 0) ''testdb'' ''teststore'' (KStr ''key4'') (person 4 ''Dan'')) =
     Rejected TransactionError"
  by (simp add: test_host_eq writeJson_def engine_defs Let_def)

subsection \<open>The delete cursor\<close>

lemma sorted_keys_distinct: "sorted_wrt key_less ks \<Longrightarrow> distinct ks"
  by (induction ks) (auto simp: key_less_irrefl)

lemma delete_cursor_recs:
  "delete_cursor p ys st = Inr st' \<Longrightarrow>
   st' = st\<lparr>recs := filter (\<lambda>r. fst r \<notin> fst ` {y \<in> set ys. p (snd y) = Inr True}) (recs st)\<rparr>"
proof (induction p ys st rule: delete_cursor.induct)
  case (1 p st)
  then show ?case by simp
next
  case (2 p k v rs st)
  from "2.prems" obtain b where b: "p v = Inr b"
    by (auto split: sum.splits)
  with "2.prems" have "delete_cursor p rs (if b then store_delete k st else st) = Inr st'"
    by simp
  from "2.IH" [OF b this] have st': "st' = (if b then store_delete k st else st)
      \<lparr>recs := filter (\<lambda>r. fst r \<notin> fst ` {y \<in> set rs. p (snd y) = Inr True})
                 (recs (if b then store_delete k st else st))\<rparr>" .
  have "filter (\<lambda>r. fst r \<notin> fst ` {y \<in> set rs. p (snd y) = Inr True})
          (recs (if b then store_delete k st else st)) =
        filter (\<lambda>r. fst r \<notin> fst ` {y \<in> set ((k, v) # rs). p (snd y) = Inr True}) (recs st)"
  proof (cases b)
    case True
    have "filter (\<lambda>r. fst r \<noteq> k \<and> fst r \<notin> fst ` {y \<in> set rs. p (snd y) = Inr True}) (recs st) =
        filter (\<lambda>r. fst r \<notin> fst ` {y \<in> set ((k, v) # rs). p (snd y) = Inr True}) (recs st)"
      by (rule filter_cong [OF refl]) (use b True in force)
    with True show ?thesis by (simp add: store_delete_def del_rec_def)
  next
    case False
    have "filter (\<lambda>r. fst r \<notin> fst ` {y \<in> set rs. p (snd y) = Inr True}) (recs st) =
        filter (\<lambda>r. fst r \<notin> fst ` {y \<in> set ((k, v) # rs). p (snd y) = Inr True}) (recs st)"
      by (rule filter_cong [OF refl]) (use b False in force)
    with False show ?thesis by simp
  qed
  with st' show ?case by (cases b) (simp_all add: store_delete_def)
qed

lemma delete_cursor_total:
  "\<forall>v \<in> set (map snd ys). \<exists>b. p v = Inr b \<Longrightarrow> \<exists>st'. delete_cursor p ys st = Inr st'"
  by (induction p ys st rule: delete_cursor.induct) (auto split: sum.splits)

lemma matching_keys:
  assumes "distinct (map fst rs)"
  shows "filter (\<lambda>r. fst r \<notin> fst ` {y \<in> set rs. p (snd y) = Inr True}) rs =
         filter (\<lambda>r. p (snd r) \<noteq> Inr True) rs"
proof (rule filter_cong [OF refl])
  fix r assume r: "r \<in> set rs"
  have "fst r \<in> fst ` {y \<in> set rs. p (snd y) = Inr True} \<longleftrightarrow> p (snd r) = Inr True"
  proof
    assume "fst r \<in> fst ` {y \<in> set rs. p (snd y) = Inr True}"
    then obtain y where y: "y \<in> set rs" "p (snd y) = Inr True" "fst y = fst r" by auto
    from assms y(1) r y(3) have "y = r"
      by (metis eq_key_imp_eq_value prod.collapse)
    with y show "p (snd r) = Inr True" by simp
  next
    assume "p (snd r) = Inr True"
    with r show "fst r \<in> fst ` {y \<in> set rs. p (snd y) = Inr True}" by auto
  qed
  then show "(fst r \<notin> fst ` {y \<in> set rs. p (snd y) = Inr True}) = (p (snd r) \<noteq> Inr True)"
    by simp
qed

lemma deleteMultipleRecords_Resolved:
  assumes "deleteMultipleRecords h f d c p = (Resolved (), h')"
  shows "\<exists>db st.
           dbs h d = Some db \<and> stores db c = Some st \<and>
           h' = (h\<lparr>dbs := (dbs h)(d \<mapsto> db\<lparr>stores := (stores db)(c \<mapsto>
                    st\<lparr>recs := filter (\<lambda>r. fst r \<notin> fst ` {y \<in> set (recs st). p (snd y) = Inr True})
                                 (recs st)\<rparr>)\<rparr>),
                  conns := d # conns h\<rparr>)"
proof -
  from assms obtain db h1 where op: "idb_open h f d None id = Inr (db, h1)"
    by (auto simp: deleteMultipleRecords_def split: sum.splits)
  note h1 = idb_open_host [OF op]
  from assms op obtain st where st: "stores db c = Some st"
    by (auto simp: deleteMultipleRecords_def transaction_def split: option.splits if_splits)
  from assms op st obtain st' where
    dc: "delete_cursor p (recs st) st = Inr st'"
    and h': "h' = commit d (db\<lparr>stores := (stores db)(c \<mapsto> st')\<rparr>) h1"
    by (auto simp: deleteMultipleRecords_def transaction_def openCursor_def
        split: sum.splits if_splits fault.splits)
  have db: "dbs h d = Some db"
    using idb_open_id_db [OF op] st by (cases "dbs h d") auto
  show ?thesis
    using db st by (simp add: h' h1 commit_def delete_cursor_recs [OF dc])
qed

lemma test_delete_eval:
  "deleteMultipleRecords test_host NoFault ''testdb'' ''teststore'' (id_upto 2) =
     (Resolved (),
      \<lparr>dbs = [''testdb'' \<mapsto>
        \<lparr>version = 1,
         stores = [''changeLog'' \<mapsto>
             \<lparr>autoInc = True, keyGen = 4,
              recs = [(KNum 1, Entry 1 ''teststore'' (KStr ''key1'') (person 1 ''Alice'')),
                      (KNum 2, Entry 2 ''teststore'' (KStr ''key2'') (person 2 ''Bob'')),
                      (KNum 3, Entry 3 ''teststore'' (KStr ''key3'') (person 3 ''Charlie''))]\<rparr>,
           ''teststore'' \<mapsto>
             \<lparr>autoInc = False, keyGen = 1,
              recs = [(KStr ''key3'', Plain (person 3 ''Charlie''))]\<rparr>]\<rparr>],
      conns = [''testdb'']\<rparr>)"
  by (simp add: test_host_eq deleteMultipleRecords_def engine_defs id_upto_def person_def Let_def)

subsection \<open>What the single-key operations do to the engine\<close>

lemma deleteKey_cases:
  "(\<exists>e. openDb h f d c = Inl e \<and> deleteKey h f d c k = (Rejected e, h)) \<or>
   (\<exists>e db h1. openDb h f d c = Inr (db, h1) \<and> deleteKey h f d c k = (Rejected e, h1)) \<or>
   (\<exists>db h1 st. openDb h f d c = Inr (db, h1) \<and> stores db c = Some st \<and>
      deleteKey h f d c k =
        (Resolved (),
         close d (commit d (db\<lparr>stores := (stores db)(c \<mapsto> store_delete k st)\<rparr>) h1)))"
proof (cases "openDb h f d c")
  case (Inl e)
  then show ?thesis by (simp add: deleteKey_def)
next
  case (Inr p)
  obtain db h1 where p: "p = (db, h1)" by (cases p)
  note op = Inr [unfolded p]
  show ?thesis
  proof (cases "stores db c")
    case None
    then show ?thesis by (simp add: deleteKey_def op transaction_def)
  next
    case (Some st)
    then show ?thesis
      by (cases "txDone f") (simp_all add: deleteKey_def op transaction_def)
  qed
qed

lemma readJson_cases:
  "(\<exists>e. openDb h f d c = Inl e \<and> readJson h f d c k = (Rejected e, h)) \<or>
   (\<exists>e db h1. openDb h f d c = Inr (db, h1) \<and> readJson h f d c k = (Rejected e, h1)) \<or>
   (\<exists>db h1 st. openDb h f d c = Inr (db, h1) \<and> stores db c = Some st \<and>
      readJson h f d c k = (Resolved (get_rec k (recs st)), close d h1))"
proof (cases "openDb h f d c")
  case (Inl e)
  then show ?thesis by (simp add: readJson_def)
next
  case (Inr p)
  obtain db h1 where p: "p = (db, h1)" by (cases p)
  note op = Inr [unfolded p]
  show ?thesis
  proof (cases "stores db c")
    case None
    then show ?thesis by (simp add: readJson_def op transaction_def)
  next
    case (Some st)
    with op show ?thesis
      by (cases f) (simp_all add: readJson_def transaction_def requestToPromise_def txDone_def)
  qed
qed

lemma openDb_conns: "openDb h f d c = Inr (db, h1) \<Longrightarrow> conns h1 = d # conns h"
  by (auto simp: openDb_def dest!: idb_open_host)

lemma idb_open_id_recs:
  assumes "idb_open h f d None id = Inr (db, h1)"
  shows "store_recs h1 d' s = store_recs h d' s"
  using idb_open_id_db [OF assms]
  by (auto simp: idb_open_host [OF assms] store_recs_def split: option.splits)

lemma deleteMultipleRecords_cases:
  "(\<exists>r. deleteMultipleRecords h f d c p = (r, h)) \<or>
   (\<exists>r db h1. idb_open h f d None id = Inr (db, h1) \<and> deleteMultipleRecords h f d c p = (r, h1)) \<or>
   (\<exists>h'. deleteMultipleRecords h f d c p = (Resolved (), h'))"
  by (auto simp: deleteMultipleRecords_def split: sum.splits option.splits prod.splits)

lemma writeJson_Rejected_conns:
  assumes op: "openDb h f d c = Inr (db, h1)" and rj: "fst (writeJson h f d c k v) = Rejected e"
  shows "conns (snd (writeJson h f d c k v)) = d # conns h"
proof -
  note cs = openDb_conns [OF op]
  show ?thesis
  proof (cases "transaction db [c, ''changeLog'']")
    case (Inl e)
    then show ?thesis by (simp add: writeJson_def op cs)
  next
    case tx: (Inr tx)
    show ?thesis
    proof (cases "objectStore_put c v k tx")
      case (Inl e)
      then show ?thesis by (simp add: writeJson_def op tx cs)
    next
      case put: (Inr tx1)
      show ?thesis
      proof (cases "objectStore_add ''changeLog'' c k v tx1")
        case (Throws e)
        then show ?thesis
          by (simp add: writeJson_def op tx put cs autoCommit_def commit_def split: fault.splits)
      next
        case (ReqError e)
        then show ?thesis by (simp add: writeJson_def op tx put cs)
      next
        case (ReqOk tx2)
        with rj show ?thesis
          by (cases "txDone f") (simp_all add: writeJson_def op tx put cs)
      qed
    qed
  qed
qed

lemma test_deleteKey_eval:
  "deleteKey test_host NoFault ''testdb'' ''teststore'' (KStr ''key1'') =
     (Resolved (),
      \<lparr>dbs = [''testdb'' \<mapsto>
        \<lparr>version = 1,
         stores = [''changeLog'' \<mapsto>
             \<lparr>autoInc = True, keyGen = 4,
              recs = [(KNum 1, Entry 1 ''teststore'' (KStr ''key1'') (person 1 ''Alice'')),
                      (KNum 2, Entry 2 ''teststore'' (KStr ''key2'') (person 2 ''Bob'')),
                      (KNum 3, Entry 3 ''teststore'' (KStr ''key3'') (person 3 ''Charlie''))]\<rparr>,
           ''teststore'' \<mapsto>
             \<lparr>autoInc = False, keyGen = 1,
              recs = [(KStr ''key2'', Plain (person 2 ''Bob'')),
                      (KStr ''key3'', Plain (person 3 ''Charlie''))]\<rparr>]\<rparr>],
      conns = []\<rparr>)"
  by (simp add: test_host_eq deleteKey_def engine_defs Let_def)


subsection \<open>A predicate that throws\<close>

lemma read_cursor_throws:
  "\<forall>r \<in> set pre. \<exists>b. p (snd r) = Inr b \<Longrightarrow> p v = Inl e \<Longrightarrow>
   read_cursor p (pre @ (k, v) # post) acc = Inl e"
  by (induction p pre acc rule: read_cursor.induct) auto

lemma delete_cursor_throws:
  "\<forall>r \<in> set pre. \<exists>b. p (snd r) = Inr b \<Longrightarrow> p v = Inl e \<Longrightarrow>
   delete_cursor p (pre @ (k, v) # post) st = Inl e"
  by (induction p pre st rule: delete_cursor.induct) auto

lemma store_recs_Cons:
  "store_recs h d c = r # rs \<Longrightarrow>
   \<exists>db st. dbs h d = Some db \<and> stores db c = Some st \<and> recs st = r # rs"
  by (auto simp: store_recs_def split: option.splits)

lemma idb_open_id_existing:
  "dbs h d = Some db \<Longrightarrow> f \<noteq> OpenFault \<Longrightarrow>
   idb_open h f d None id = Inr (db, h\<lparr>conns := d # conns h\<rparr>)"
  by (simp add: idb_open_def)

subsection \<open>Which collections exist\<close>

lemma idb_open_id_has_store:
  assumes "idb_open h f d None id = Inr (db, h1)"
  shows "has_store h1 d' s = has_store h d' s"
    and "stores db s \<noteq> None \<longleftrightarrow> has_store h d s"
  using idb_open_id_db [OF assms]
  by (auto simp: idb_open_host [OF assms] has_store_def split: option.splits)

lemma idb_open_id_result:
  "idb_open h f d None id = (if f = OpenFault then Inl HostFailure
     else Inr (case dbs h d of None \<Rightarrow> \<lparr>version = 1, stores = Map.empty\<rparr> | Some db0 \<Rightarrow> db0,
               h\<lparr>dbs := (dbs h)(d \<mapsto> case dbs h d of None \<Rightarrow> \<lparr>version = 1, stores = Map.empty\<rparr> | Some db0 \<Rightarrow> db0),
                  conns := d # conns h\<rparr>))"
  by (auto simp: idb_open_def Let_def map_upd_triv split: option.splits)

lemma readMultipleRecords_cases:
  "(\<exists>r. readMultipleRecords h f d c p = (r, h)) \<or>
   (\<exists>r db h1. idb_open h f d None id = Inr (db, h1) \<and> readMultipleRecords h f d c p = (r, h1))"
  by (auto simp: readMultipleRecords_def split: sum.splits option.splits prod.splits)

lemma pollForChanges_cases:
  "(\<exists>r. pollForChanges d cb h f seen = (r, h)) \<or>
   (\<exists>r db h1. idb_open h f d None id = Inr (db, h1) \<and> pollForChanges d cb h f seen = (r, h1))"
  by (auto simp: pollForChanges_def split: sum.splits option.splits prod.splits)

lemma pollForChangesWithLog_cases:
  "(\<exists>r. pollForChangesWithLog d cb h f seen = (r, h)) \<or>
   (\<exists>r db h1. idb_open h f d None id = Inr (db, h1) \<and> pollForChangesWithLog d cb h f seen = (r, h1))"
  by (auto simp: pollForChangesWithLog_def split: sum.splits option.splits prod.splits)

lemma has_store_readMultipleRecords:
  "has_store (snd (readMultipleRecords h f d c p)) d' s = has_store h d' s"
  using readMultipleRecords_cases [of h f d c p] by (auto simp: idb_open_id_has_store)

lemma has_store_pollForChanges:
  "has_store (snd (pollForChanges d cb h f seen)) d' s = has_store h d' s"
  using pollForChanges_cases [of d cb h f seen] by (auto simp: idb_open_id_has_store)

lemma has_store_pollForChangesWithLog:
  "has_store (snd (pollForChangesWithLog d cb h f seen)) d' s = has_store h d' s"
  using pollForChangesWithLog_cases [of d cb h f seen] by (auto simp: idb_open_id_has_store)

lemma has_store_deleteMultipleRecords:
  "has_store (snd (deleteMultipleRecords h f d c p)) d' s = has_store h d' s"
  using deleteMultipleRecords_cases [of h f d c p]
proof (elim disjE exE conjE)
  fix r assume "deleteMultipleRecords h f d c p = (r, h)"
  then show ?thesis by simp
next
  fix r db h1
  assume "idb_open h f d None id = Inr (db, h1)" "deleteMultipleRecords h f d c p = (r, h1)"
  then show ?thesis by (simp add: idb_open_id_has_store)
next
  fix h' assume r: "deleteMultipleRecords h f d c p = (Resolved (), h')"
  from deleteMultipleRecords_Resolved [OF r] show ?thesis
    by (auto simp: r has_store_def split: if_splits option.splits)
qed

lemma missing_store_read:
  "\<not> has_store h d c \<Longrightarrow>
   fst (readMultipleRecords h f d c p) =
     (if f = OpenFault then Rejected HostFailure else Unsettled NotFoundError)"
  by (auto simp: readMultipleRecords_def idb_open_id_result transaction_def has_store_def
      split: option.splits)

lemma missing_store_delete:
  "\<not> has_store h d c \<Longrightarrow>
   fst (deleteMultipleRecords h f d c p) =
     (if f = OpenFault then Rejected HostFailure else Unsettled NotFoundError)"
  by (auto simp: deleteMultipleRecords_def idb_open_id_result transaction_def has_store_def
      split: option.splits)

lemma missing_log_poll:
  "\<not> has_store h d ''changeLog'' \<Longrightarrow>
   fst (pollForChanges d cb h f seen) =
     \<lparr>delivered = [], seenChanges = seen, logged = [], rescheduled = False\<rparr>"
  by (auto simp: pollForChanges_def idb_open_id_result transaction_def has_store_def
      split: option.splits)

lemma missing_log_pollWithLog:
  "\<not> has_store h d ''changeLog'' \<Longrightarrow>
   fst (pollForChangesWithLog d cb h f seen) =
     \<lparr>delivered = [], seenChanges = seen,
      logged = (if f = OpenFault then [''Error opening database:''] else []),
      rescheduled = False\<rparr>"
  by (auto simp: pollForChangesWithLog_def idb_open_id_result transaction_def has_store_def
      split: option.splits)

lemma openDb_fresh:
  "dbs h d = None \<Longrightarrow> f \<noteq> OpenFault \<Longrightarrow>
   \<exists>db h1. openDb h f d c = Inr (db, h1) \<and> stores db c \<noteq> None \<and> stores db ''changeLog'' \<noteq> None"
  by (simp add: openDb_def idb_open_def Let_def onupgradeneeded_stores)

lemma has_store_commit:
  "dbs h1 d = Some db \<Longrightarrow> stores db s \<noteq> None \<Longrightarrow> stores tx s \<noteq> None \<Longrightarrow>
   has_store (commit d tx h1) d s"
  by (simp add: has_store_def commit_def)

lemma has_store_close: "has_store (close d h) d' s = has_store h d' s"
  by (simp add: has_store_def close_def)

lemma writeJson_keeps_stores:
  assumes op: "openDb h f d c = Inr (db, h1)" and s: "stores db s \<noteq> None"
  shows "has_store (snd (writeJson h f d c k v)) d s"
proof -
  have d1: "dbs h1 d = Some db" using op by (rule openDb_dbs)
  with s have h1: "has_store h1 d s" by (simp add: has_store_def)
  show ?thesis
  proof (cases "transaction db [c, ''changeLog'']")
    case (Inl e)
    then show ?thesis by (simp add: writeJson_def op h1)
  next
    case (Inr tx)
    then have tx: "transaction db [c, ''changeLog''] = Inr db"
      by (auto simp: transaction_def split: if_splits)
    show ?thesis
    proof (cases "objectStore_put c v k db")
      case (Inl e)
      then show ?thesis by (simp add: writeJson_def op tx h1)
    next
      case put: (Inr tx1)
      then have s1: "stores tx1 s \<noteq> None"
        using s by (auto simp: objectStore_put_def split: option.splits sum.splits)
      show ?thesis
      proof (cases "objectStore_add ''changeLog'' c k v tx1")
        case (Throws e)
        then show ?thesis
          using h1 has_store_commit [OF d1 s s1]
          by (simp add: writeJson_def op tx put autoCommit_def split: fault.splits)
      next
        case (ReqError e)
        then show ?thesis by (simp add: writeJson_def op tx put h1)
      next
        case (ReqOk tx2)
        then have s2: "stores tx2 s \<noteq> None"
          using s1 by (auto simp: objectStore_add_def split: option.splits request.splits)
        show ?thesis
          using h1 has_store_commit [OF d1 s s2] ReqOk
          by (cases "txDone f") (simp_all add: writeJson_def op tx put has_store_close)
      qed
    qed
  qed
qed

lemma readJson_keeps_stores:
  assumes op: "openDb h f d c = Inr (db, h1)" and s: "stores db s \<noteq> None"
  shows "has_store (snd (readJson h f d c k)) d s"
proof -
  have d1: "dbs h1 d = Some db" using op by (rule openDb_dbs)
  with s have h1: "has_store h1 d s" by (simp add: has_store_def)
  from readJson_cases [of h f d c k] op h1 show ?thesis
    by (auto simp: has_store_close)
qed

lemma deleteKey_keeps_stores:
  assumes op: "openDb h f d c = Inr (db, h1)" and s: "stores db s \<noteq> None"
  shows "has_store (snd (deleteKey h f d c k)) d s"
proof -
  have d1: "dbs h1 d = Some db" using op by (rule openDb_dbs)
  with s have h1: "has_store h1 d s" by (simp add: has_store_def)
  from deleteKey_cases [of h f d c k] op h1 s d1 show ?thesis
    by (auto simp: has_store_close intro!: has_store_commit)
qed

subsection \<open>When a pass schedules the next one\<close>

lemma notify_cursor_returns:
  "\<forall>v. cb v = None \<Longrightarrow> notify_cursor cb rs seen out = (ok, seen', out') \<Longrightarrow> ok"
  by (induction cb rs seen out rule: notify_cursor.induct) (auto split: if_splits)

lemma rescheduled_pollForChanges:
  "rescheduled (fst (pollForChanges d cb h f seen)) \<Longrightarrow> f = NoFault \<and> has_store h d ''changeLog''"
  by (cases f)
    (auto simp: pollForChanges_def idb_open_id_result transaction_def has_store_def openCursor_def
      split: option.splits prod.splits if_splits)

lemma rescheduled_pollForChangesWithLog:
  "rescheduled (fst (pollForChangesWithLog d cb h f seen)) \<Longrightarrow>
   f = NoFault \<and> has_store h d ''changeLog''"
  by (cases f)
    (auto simp: pollForChangesWithLog_def idb_open_id_result transaction_def has_store_def
      openCursor_def split: option.splits prod.splits if_splits)

lemma pass_completes:
  assumes "has_store h d ''changeLog''" and "\<forall>v. cb v = None"
  shows "rescheduled (fst (pollForChanges d cb h NoFault seen))"
    and "rescheduled (fst (pollForChangesWithLog d cb h NoFault seen))"
  using assms(1)
  by (auto simp: pollForChanges_def pollForChangesWithLog_def idb_open_id_result transaction_def
      has_store_def openCursor_def split: option.splits prod.splits
      dest: notify_cursor_returns [OF assms(2)])

subsection \<open>The log after a write\<close>

lemma writeJson_appends:
  assumes "wf_host h" and w: "writeJson h f dbName storeName key val = (Resolved (), h')"
  shows "store_recs h' dbName ''changeLog'' =
          store_recs h dbName ''changeLog'' @
            [(KNum (key_generator h dbName), Entry (key_generator h dbName) storeName key val)]"
    and "\<forall>r \<in> set (store_recs h dbName ''changeLog'').
            key_less (fst r) (KNum (key_generator h dbName))"
    and "key_generator h' dbName = key_generator h dbName + 1"
    and "get_rec key (store_recs h' dbName storeName) = Some (Plain val)"
proof -
  from writeJson_Resolved [OF w] obtain db h1 st cl where
    op: "openDb h f dbName storeName = Inr (db, h1)" and ne: "storeName \<noteq> ''changeLog''"
    and st: "stores db storeName = Some st"
    and cl: "stores db ''changeLog'' = Some cl" "autoInc cl"
    and h': "h' = close dbName (commit dbName
                  (db\<lparr>stores := (stores db)
                       (storeName \<mapsto> st\<lparr>recs := put_rec key (Plain val) (recs st)\<rparr>,
                        ''changeLog'' \<mapsto> cl\<lparr>keyGen := keyGen cl + 1,
                           recs := put_rec (KNum (keyGen cl)) (Entry (keyGen cl) storeName key val) (recs cl)\<rparr>)\<rparr>)
                  h1)"
    by (elim exE conjE) (rule that; assumption)
  have d1: "dbs h1 dbName = Some db" using op by (rule openDb_dbs)
  have old: "store_recs h dbName ''changeLog'' = recs cl"
    using openDb_recs [OF op, of dbName "''changeLog''"] d1 cl by (simp add: store_recs_def)
  have gen: "key_generator h dbName = keyGen cl"
    using openDb_key_generator [OF op, of dbName] d1 cl by (simp add: key_generator_def)
  from wf_openDb [OF op assms(1)] cl have "wf_store cl"
    by (auto dest: wf_database_store)
  with cl have below: "\<forall>x \<in> set (map fst (recs cl)). key_less x (KNum (keyGen cl))"
    by (simp add: wf_store_def)
  show "store_recs h' dbName ''changeLog'' =
          store_recs h dbName ''changeLog'' @
            [(KNum (key_generator h dbName), Entry (key_generator h dbName) storeName key val)]"
    unfolding old gen using put_rec_append [OF below]
    by (simp add: h' store_recs_def close_def commit_def)
  show "\<forall>r \<in> set (store_recs h dbName ''changeLog'').
            key_less (fst r) (KNum (key_generator h dbName))"
    using below by (simp add: old gen)
  show "key_generator h' dbName = key_generator h dbName + 1"
    unfolding gen by (simp add: h' key_generator_def close_def commit_def)
  show "get_rec key (store_recs h' dbName storeName) = Some (Plain val)"
    using ne by (simp add: h' store_recs_def close_def commit_def get_rec_def map_of_put_rec_same)
qed

subsection \<open>The notifier's cursor\<close>






subsection \<open>The passes of an observer\<close>










subsection \<open>Every operation keeps the engine well-formed\<close>

lemma wf_readJson: "wf_host h \<Longrightarrow> wf_host (snd (readJson h f d c k))"
  using readJson_cases [of h f d c k]
  by (auto simp: wf_close dest: wf_openDb)

lemma wf_deleteKey:
  assumes "wf_host h"
  shows "wf_host (snd (deleteKey h f d c k))"
  using deleteKey_cases [of h f d c k]
proof (elim disjE exE conjE)
  fix e assume "deleteKey h f d c k = (Rejected e, h)"
  with assms show ?thesis by simp
next
  fix e db h1
  assume "openDb h f d c = Inr (db, h1)" "deleteKey h f d c k = (Rejected e, h1)"
  with assms show ?thesis by (auto dest: wf_openDb)
next
  fix db h1 st
  assume op: "openDb h f d c = Inr (db, h1)" and st: "stores db c = Some st"
    and r: "deleteKey h f d c k =
      (Resolved (), close d (commit d (db\<lparr>stores := (stores db)(c \<mapsto> store_delete k st)\<rparr>) h1))"
  from wf_openDb [OF op assms] have w1: "wf_host h1" and wd: "wf_database db" by blast+
  from wf_database_store [OF wd st] have "wf_store (store_delete k st)"
    by (rule wf_store_delete)
  with wd have "wf_database (db\<lparr>stores := (stores db)(c \<mapsto> store_delete k st)\<rparr>)"
    by (rule wf_database_upd)
  with w1 show ?thesis by (simp add: r wf_close wf_commit)
qed

lemma wf_readMultipleRecords: "wf_host h \<Longrightarrow> wf_host (snd (readMultipleRecords h f d c p))"
  using readMultipleRecords_cases [of h f d c p]
  by (auto dest: wf_idb_open_id)

lemma wf_pollForChanges: "wf_host h \<Longrightarrow> wf_host (snd (pollForChanges d cb h f seen))"
  using pollForChanges_cases [of d cb h f seen]
  by (auto dest: wf_idb_open_id)

lemma wf_pollForChangesWithLog:
  "wf_host h \<Longrightarrow> wf_host (snd (pollForChangesWithLog d cb h f seen))"
  using pollForChangesWithLog_cases [of d cb h f seen]
  by (auto dest: wf_idb_open_id)

lemma wf_deleteMultipleRecords:
  assumes "wf_host h"
  shows "wf_host (snd (deleteMultipleRecords h f d c p))"
  using deleteMultipleRecords_cases [of h f d c p]
proof (elim disjE exE conjE)
  fix r assume "deleteMultipleRecords h f d c p = (r, h)"
  with assms show ?thesis by simp
next
  fix r db h1
  assume "idb_open h f d None id = Inr (db, h1)" "deleteMultipleRecords h f d c p = (r, h1)"
  with assms show ?thesis by (auto dest: wf_idb_open_id)
next
  fix h' assume r: "deleteMultipleRecords h f d c p = (Resolved (), h')"
  from deleteMultipleRecords_Resolved [OF r] obtain db st where
    db: "dbs h d = Some db" and st: "stores db c = Some st"
    and h': "h' = (h\<lparr>dbs := (dbs h)(d \<mapsto> db\<lparr>stores := (stores db)(c \<mapsto>
                    st\<lparr>recs := filter (\<lambda>r. fst r \<notin> fst ` {y \<in> set (recs st). p (snd y) = Inr True})
                                 (recs st)\<rparr>)\<rparr>),
                  conns := d # conns h\<rparr>)"
    by (elim exE conjE) (rule that; assumption)
  from assms db have wd: "wf_database db" by (auto simp: wf_host_def)
  from wf_database_store [OF wd st] have
    "wf_store (st\<lparr>recs := filter (\<lambda>r. fst r \<notin> fst ` {y \<in> set (recs st). p (snd y) = Inr True})
        (recs st)\<rparr>)"
    by (auto simp: wf_store_def sorted_wrt_filter sorted_wrt_map)
  with wd have "wf_database (db\<lparr>stores := (stores db)(c \<mapsto>
      st\<lparr>recs := filter (\<lambda>r. fst r \<notin> fst ` {y \<in> set (recs st). p (snd y) = Inr True})
        (recs st)\<rparr>)\<rparr>)"
    by (rule wf_database_upd)
  with assms show ?thesis by (auto simp: r h' wf_host_def)
qed

lemma failed_request_logged:
  assumes "has_store h d ''changeLog''" and cb: "\<forall>v. cb v = None"
  shows "logged (fst (pollForChangesWithLog d cb h (TxFault n) seen)) = [''Transaction error:'']"
    and "logged (fst (pollForChanges d cb h (TxFault n) seen)) = []"
  using assms(1)
  by (auto simp: pollForChanges_def pollForChangesWithLog_def idb_open_id_result transaction_def
      has_store_def openCursor_def split: option.splits prod.splits
      dest: notify_cursor_returns [OF cb])

section \<open>The claims\<close>

text \<open>
  C4. \<open>readMultipleRecords\<close> filters and keeps the order: whenever its promise resolves,
  the result is the sequence of exactly those record values of the collection for which
  the predicate returned true, in the order of the cursor; and on an existing collection,
  with a predicate that returns on every record and an engine that does not fail, the
  promise does resolve, when the cursor is exhausted.
\<close>

theorem readMultipleRecords_filters_in_order:
  "(fst (readMultipleRecords h f dbName storeName filterFn) = Resolved rs \<longrightarrow>
      rs = filter (\<lambda>v. filterFn v = Inr True) (map snd (store_recs h dbName storeName))) \<and>
   (has_store h dbName storeName \<and>
    (\<forall>v \<in> set (map snd (store_recs h dbName storeName)). \<exists>b. filterFn v = Inr b) \<longrightarrow>
      fst (readMultipleRecords h NoFault dbName storeName filterFn) =
        Resolved (filter (\<lambda>v. filterFn v = Inr True) (map snd (store_recs h dbName storeName))))"
proof (intro conjI impI)
  assume "fst (readMultipleRecords h f dbName storeName filterFn) = Resolved rs"
  then show "rs = filter (\<lambda>v. filterFn v = Inr True) (map snd (store_recs h dbName storeName))"
    by (auto simp: readMultipleRecords_def idb_open_def transaction_def openCursor_def
        store_recs_def Let_def
        split: if_splits option.splits sum.splits prod.splits fault.splits
        dest!: read_cursor_acc)
next
  assume a: "has_store h dbName storeName \<and>
    (\<forall>v \<in> set (map snd (store_recs h dbName storeName)). \<exists>b. filterFn v = Inr b)"
  then obtain db st where db: "dbs h dbName = Some db" and st: "stores db storeName = Some st"
    by (auto simp: has_store_def split: option.splits)
  with a have tot: "\<forall>v \<in> set (map snd (recs st)). \<exists>b. filterFn v = Inr b"
    by (simp add: store_recs_def)
  show "fst (readMultipleRecords h NoFault dbName storeName filterFn) =
        Resolved (filter (\<lambda>v. filterFn v = Inr True) (map snd (store_recs h dbName storeName)))"
    using db st read_cursor_total [OF tot, of "[]"]
    by (simp add: readMultipleRecords_def idb_open_def transaction_def openCursor_def
        store_recs_def)
qed

theorem readMultipleRecords_filters_in_order_witness:
  "has_store test_host ''testdb'' ''teststore'' \<and>
   fst (readMultipleRecords test_host NoFault ''testdb'' ''teststore'' (id_above 1)) =
     Resolved [Plain (person 2 ''Bob''), Plain (person 3 ''Charlie'')]"
  using readMultipleRecords_filters_in_order
    [of test_host NoFault "''testdb''" "''teststore''" "id_above 1"
        "[Plain (person 2 ''Bob''), Plain (person 3 ''Charlie'')]"]
  by (simp add: test_host_eq has_store_def store_recs_def id_above_def person_def)

text \<open>
  C1. Dual write of \<open>writeJson\<close>. On every well-formed engine state: when the call
  resolves, the change log is the log of before followed by exactly one new entry
  \<open>{store, key, value}\<close>, whose id is the number of the key generator, above the id of
  every entry of the log and below every id handed out later (the generator has moved
  on by one), and the record is in its collection. When the transaction fails, the call
  is rejected, and whenever the call is rejected for a failure signalled by the engine
  (a failed open, a failed request or an abort, a constraint violation of \<open>add\<close>), no
  collection of any database shows a change: neither the record nor the log entry is
  visible.
\<close>

theorem writeJson_dual_write_atomic:
  assumes "wf_host h"
  shows
    "(writeJson h f dbName storeName key val = (Resolved (), h') \<longrightarrow>
        store_recs h' dbName ''changeLog'' =
          store_recs h dbName ''changeLog'' @
            [(KNum (key_generator h dbName), Entry (key_generator h dbName) storeName key val)] \<and>
        (\<forall>r \<in> set (store_recs h dbName ''changeLog'').
            key_less (fst r) (KNum (key_generator h dbName))) \<and>
        key_generator h' dbName = key_generator h dbName + 1 \<and>
        get_rec key (store_recs h' dbName storeName) = Some (Plain val)) \<and>
     ((\<exists>n. f = TxFault n) \<longrightarrow> (\<exists>e. fst (writeJson h f dbName storeName key val) = Rejected e)) \<and>
     ((\<exists>n. f = TxFault n) \<or>
      fst (writeJson h f dbName storeName key val) = Rejected TransactionError \<or>
      fst (writeJson h f dbName storeName key val) = Rejected ConstraintError \<or>
      fst (writeJson h f dbName storeName key val) = Rejected HostFailure \<longrightarrow>
        (\<forall>d s. store_recs (snd (writeJson h f dbName storeName key val)) d s = store_recs h d s))"
proof (intro conjI impI)
  assume w: "writeJson h f dbName storeName key val = (Resolved (), h')"
  from writeJson_appends [OF assms w]
  show "store_recs h' dbName ''changeLog'' =
          store_recs h dbName ''changeLog'' @
            [(KNum (key_generator h dbName), Entry (key_generator h dbName) storeName key val)]"
    and "\<forall>r \<in> set (store_recs h dbName ''changeLog'').
            key_less (fst r) (KNum (key_generator h dbName))"
    and "key_generator h' dbName = key_generator h dbName + 1"
    and "get_rec key (store_recs h' dbName storeName) = Some (Plain val)"
    by blast+
next
  assume "\<exists>n. f = TxFault n"
  then have td: "txDone f = Inl TransactionError" by (auto simp: txDone_def)
  show "\<exists>e. fst (writeJson h f dbName storeName key val) = Rejected e"
  proof (cases "openDb h f dbName storeName")
    case (Inl e)
    then show ?thesis by (simp add: writeJson_def)
  next
    case (Inr p)
    obtain db h1 where p: "p = (db, h1)" by (cases p)
    note op = Inr [unfolded p]
    show ?thesis
    proof (cases "transaction db [storeName, ''changeLog'']")
      case (Inl e)
      then show ?thesis by (simp add: writeJson_def op)
    next
      case tx: (Inr tx)
      show ?thesis
      proof (cases "objectStore_put storeName val key tx")
        case (Inl e)
        then show ?thesis by (simp add: writeJson_def op tx)
      next
        case put: (Inr tx1)
        show ?thesis
          by (cases "objectStore_add ''changeLog'' storeName key val tx1")
            (simp_all add: writeJson_def op tx put td)
      qed
    qed
  qed
next
  assume a: "(\<exists>n. f = TxFault n) \<or>
      fst (writeJson h f dbName storeName key val) = Rejected TransactionError \<or>
      fst (writeJson h f dbName storeName key val) = Rejected ConstraintError \<or>
      fst (writeJson h f dbName storeName key val) = Rejected HostFailure"
  show "\<forall>d s. store_recs (snd (writeJson h f dbName storeName key val)) d s = store_recs h d s"
  proof (cases "openDb h f dbName storeName")
    case (Inl e)
    then show ?thesis by (simp add: writeJson_def)
  next
    case (Inr p)
    obtain db h1 where p: "p = (db, h1)" by (cases p)
    note op = Inr [unfolded p]
    have same: "\<And>d s. store_recs h1 d s = store_recs h d s"
      by (rule openDb_recs [OF op])
    show ?thesis
    proof (cases "transaction db [storeName, ''changeLog'']")
      case (Inl e)
      then show ?thesis by (simp add: writeJson_def op same)
    next
      case tx: (Inr tx)
      show ?thesis
      proof (cases "objectStore_put storeName val key tx")
        case (Inl e)
        then show ?thesis by (simp add: writeJson_def op tx same)
      next
        case put: (Inr tx1)
        show ?thesis
        proof (cases "objectStore_add ''changeLog'' storeName key val tx1")
          case (Throws e)
          then have "e = DataError \<or> e = NotFoundError"
            by (auto simp: objectStore_add_def store_add_def
                split: option.splits if_splits request.splits)
          with a Throws show ?thesis
            by (auto simp: writeJson_def op tx put same autoCommit_def)
        next
          case (ReqError e)
          then show ?thesis by (simp add: writeJson_def op tx put same)
        next
          case (ReqOk tx2)
          with a show ?thesis
            by (auto simp: writeJson_def op tx put same txDone_def split: fault.splits)
        qed
      qed
    qed
  qed
qed

theorem writeJson_dual_write_atomic_witness:
  "wf_host test_host \<and>
   fst (writeJson test_host NoFault ''testdb'' ''teststore'' (KStr ''key4'') (person 4 ''Dan'')) =
     Resolved () \<and>
   store_recs (snd (writeJson test_host NoFault ''testdb'' ''teststore'' (KStr ''key4'') (person 4 ''Dan'')))
       ''testdb'' ''changeLog'' =
     store_recs test_host ''testdb'' ''changeLog'' @
       [(KNum 4, Entry 4 ''teststore'' (KStr ''key4'') (person 4 ''Dan''))] \<and>
   fst (writeJson test_host (TxFault 0) ''testdb'' ''teststore'' (KStr ''key4'') (person 4 ''Dan'')) =
     Rejected TransactionError \<and>
   store_recs (snd (writeJson test_host (TxFault 0) ''testdb'' ''teststore'' (KStr ''key4'') (person 4 ''Dan'')))
       ''testdb'' ''teststore'' =
     store_recs test_host ''testdb'' ''teststore''"
proof -
  have k: "key_generator test_host ''testdb'' = 4"
    by (simp add: test_host_eq key_generator_def)
  show ?thesis
    using writeJson_dual_write_atomic [OF wf_test_host, of NoFault "''testdb''" "''teststore''"
        "KStr ''key4''" "person 4 ''Dan''"
        "snd (writeJson test_host NoFault ''testdb'' ''teststore'' (KStr ''key4'') (person 4 ''Dan''))"]
      writeJson_dual_write_atomic [OF wf_test_host, of "TxFault 0" "''testdb''" "''teststore''"
        "KStr ''key4''" "person 4 ''Dan''" test_host]
    by (simp add: k wf_test_host test_write_eval test_write_fault_eval)
qed

text \<open>
  C3. Round trip: after a call of \<open>writeJson\<close> that resolved, \<open>readJson\<close> of the same
  database, collection and key (the engine not failing) resolves with the value written.
\<close>

theorem writeJson_readJson_round_trip:
  assumes "writeJson h f dbName storeName key val = (Resolved (), h')"
  shows "fst (readJson h' NoFault dbName storeName key) = Resolved (Some (Plain val))"
proof -
  from writeJson_Resolved [OF assms] obtain db h1 st cl where
    op: "openDb h f dbName storeName = Inr (db, h1)" and ne: "storeName \<noteq> ''changeLog''"
    and h': "h' = close dbName (commit dbName
                  (db\<lparr>stores := (stores db)
                       (storeName \<mapsto> st\<lparr>recs := put_rec key (Plain val) (recs st)\<rparr>,
                        ''changeLog'' \<mapsto> cl\<lparr>keyGen := keyGen cl + 1,
                           recs := put_rec (KNum (keyGen cl)) (Entry (keyGen cl) storeName key val) (recs cl)\<rparr>)\<rparr>)
                  h1)"
    by (elim exE conjE) (rule that; assumption)
  define tx where "tx = db\<lparr>stores := (stores db)
                       (storeName \<mapsto> st\<lparr>recs := put_rec key (Plain val) (recs st)\<rparr>,
                        ''changeLog'' \<mapsto> cl\<lparr>keyGen := keyGen cl + 1,
                           recs := put_rec (KNum (keyGen cl)) (Entry (keyGen cl) storeName key val) (recs cl)\<rparr>)\<rparr>"
  have d: "dbs h' dbName = Some tx"
    by (simp add: h' tx_def close_def commit_def)
  have v: "version tx = 1"
    using openDb_version [OF op] by (simp add: tx_def)
  have s: "stores tx storeName = Some (st\<lparr>recs := put_rec key (Plain val) (recs st)\<rparr>)"
    using ne by (simp add: tx_def)
  show ?thesis
    by (simp add: readJson_def openDb_existing [OF d v] transaction_def s txDone_def requestToPromise_def
        get_rec_def map_of_put_rec_same)
qed

theorem writeJson_readJson_round_trip_witness:
  "fst (writeJson (empty_host :: int host) NoFault ''mydb'' ''kv'' (KStr ''user:1'')
          (JObj [(''name'', JStr ''Ada''), (''age'', JNum 37)])) = Resolved () \<and>
   fst (readJson
          (snd (writeJson (empty_host :: int host) NoFault ''mydb'' ''kv'' (KStr ''user:1'')
                  (JObj [(''name'', JStr ''Ada''), (''age'', JNum 37)])))
          NoFault ''mydb'' ''kv'' (KStr ''user:1'')) =
     Resolved (Some (Plain (JObj [(''name'', JStr ''Ada''), (''age'', JNum 37)])))"
proof -
  have r: "fst (writeJson (empty_host :: int host) NoFault ''mydb'' ''kv'' (KStr ''user:1'')
          (JObj [(''name'', JStr ''Ada''), (''age'', JNum 37)])) = Resolved ()"
    by (simp add: writeJson_def engine_defs Let_def)
  show ?thesis
    using writeJson_readJson_round_trip [of empty_host NoFault "''mydb''" "''kv''" "KStr ''user:1''"
        "JObj [(''name'', JStr ''Ada''), (''age'', JNum 37)]"
        "snd (writeJson (empty_host :: int host) NoFault ''mydb'' ''kv'' (KStr ''user:1'')
                  (JObj [(''name'', JStr ''Ada''), (''age'', JNum 37)]))"] r
    by (simp add: prod_eq_iff)
qed

text \<open>
  C5. \<open>deleteMultipleRecords\<close> removes exactly the matching records. On every
  well-formed engine state: when the call resolves, the collection holds the records of
  before whose value the predicate did not accept, unchanged and in their order, and
  every other collection of every database is as before; and on an existing collection,
  with a predicate that returns on every record and an engine that does not fail, the
  call does resolve.
\<close>

theorem deleteMultipleRecords_removes_matching:
  assumes "wf_host h"
  shows
    "(deleteMultipleRecords h f dbName storeName filterFn = (Resolved (), h') \<longrightarrow>
        store_recs h' dbName storeName =
          filter (\<lambda>r. filterFn (snd r) \<noteq> Inr True) (store_recs h dbName storeName) \<and>
        (\<forall>d s. (d, s) \<noteq> (dbName, storeName) \<longrightarrow> store_recs h' d s = store_recs h d s)) \<and>
     (has_store h dbName storeName \<and>
      (\<forall>v \<in> set (map snd (store_recs h dbName storeName)). \<exists>b. filterFn v = Inr b) \<longrightarrow>
        fst (deleteMultipleRecords h NoFault dbName storeName filterFn) = Resolved ())"
proof (intro conjI impI)
  assume r: "deleteMultipleRecords h f dbName storeName filterFn = (Resolved (), h')"
  from deleteMultipleRecords_Resolved [OF r] obtain db st where
    db: "dbs h dbName = Some db" and st: "stores db storeName = Some st"
    and h': "h' = (h\<lparr>dbs := (dbs h)(dbName \<mapsto> db\<lparr>stores := (stores db)(storeName \<mapsto>
                    st\<lparr>recs := filter (\<lambda>r. fst r \<notin> fst ` {y \<in> set (recs st). filterFn (snd y) = Inr True})
                                 (recs st)\<rparr>)\<rparr>),
                  conns := dbName # conns h\<rparr>)"
    by (elim exE conjE) (rule that; assumption)
  from assms db st have "wf_store st"
    by (auto simp: wf_host_def wf_database_def)
  then have dist: "distinct (map fst (recs st))"
    by (simp add: wf_store_def sorted_keys_distinct)
  show "store_recs h' dbName storeName =
          filter (\<lambda>r. filterFn (snd r) \<noteq> Inr True) (store_recs h dbName storeName)"
    using db st matching_keys [OF dist, of filterFn] by (simp add: h' store_recs_def)
  show "\<forall>d s. (d, s) \<noteq> (dbName, storeName) \<longrightarrow> store_recs h' d s = store_recs h d s"
    using db st by (auto simp: h' store_recs_def)
next
  assume a: "has_store h dbName storeName \<and>
      (\<forall>v \<in> set (map snd (store_recs h dbName storeName)). \<exists>b. filterFn v = Inr b)"
  then obtain db st where db: "dbs h dbName = Some db" and st: "stores db storeName = Some st"
    by (auto simp: has_store_def split: option.splits)
  with a have "\<forall>v \<in> set (map snd (recs st)). \<exists>b. filterFn v = Inr b"
    by (simp add: store_recs_def)
  from delete_cursor_total [OF this, of st] obtain st' where
    "delete_cursor filterFn (recs st) st = Inr st'" by blast
  with db st show "fst (deleteMultipleRecords h NoFault dbName storeName filterFn) = Resolved ()"
    by (simp add: deleteMultipleRecords_def idb_open_def transaction_def openCursor_def)
qed

theorem deleteMultipleRecords_removes_matching_witness:
  "wf_host test_host \<and>
   fst (deleteMultipleRecords test_host NoFault ''testdb'' ''teststore'' (id_upto 2)) = Resolved () \<and>
   store_recs (snd (deleteMultipleRecords test_host NoFault ''testdb'' ''teststore'' (id_upto 2)))
      ''testdb'' ''teststore'' = [(KStr ''key3'', Plain (person 3 ''Charlie''))] \<and>
   fst (readMultipleRecords
          (snd (deleteMultipleRecords test_host NoFault ''testdb'' ''teststore'' (id_upto 2)))
          NoFault ''testdb'' ''teststore'' always_true) = Resolved [Plain (person 3 ''Charlie'')]"
proof -
  have rd: "fst (readMultipleRecords
          (snd (deleteMultipleRecords test_host NoFault ''testdb'' ''teststore'' (id_upto 2)))
          NoFault ''testdb'' ''teststore'' always_true) = Resolved [Plain (person 3 ''Charlie'')]"
    by (simp add: test_delete_eval readMultipleRecords_def engine_defs always_true_def)
  have st: "store_recs test_host ''testdb'' ''teststore'' =
      [(KStr ''key1'', Plain (person 1 ''Alice'')),
       (KStr ''key2'', Plain (person 2 ''Bob'')),
       (KStr ''key3'', Plain (person 3 ''Charlie''))]"
    by (simp add: test_host_eq store_recs_def)
  have r1: "deleteMultipleRecords test_host NoFault ''testdb'' ''teststore'' (id_upto 2) =
      (Resolved (), snd (deleteMultipleRecords test_host NoFault ''testdb'' ''teststore'' (id_upto 2)))"
    by (simp add: test_delete_eval)
  from deleteMultipleRecords_removes_matching [OF wf_test_host, of NoFault "''testdb''" "''teststore''"
        "id_upto 2"
        "snd (deleteMultipleRecords test_host NoFault ''testdb'' ''teststore'' (id_upto 2))"] r1
  have "store_recs (snd (deleteMultipleRecords test_host NoFault ''testdb'' ''teststore'' (id_upto 2)))
      ''testdb'' ''teststore'' =
    filter (\<lambda>r. id_upto 2 (snd r) \<noteq> Inr True) (store_recs test_host ''testdb'' ''teststore'')"
    by blast
  then have "store_recs (snd (deleteMultipleRecords test_host NoFault ''testdb'' ''teststore'' (id_upto 2)))
      ''testdb'' ''teststore'' = [(KStr ''key3'', Plain (person 3 ''Charlie''))]"
    by (simp add: st id_upto_def person_def)
  with rd r1 wf_test_host show ?thesis by (simp add: test_delete_eval)
qed

text \<open>
  C6, as amended. \<open>deleteKey\<close> never adds an entry to \<open>changeLog\<close>: whatever the
  call does, every entry of the log afterwards was in the log before. For every
  collection name other than \<open>changeLog\<close> the log of every database is unchanged, by
  \<open>deleteKey\<close> and by \<open>deleteMultipleRecords\<close> alike. When \<open>deleteKey\<close> resolves, the
  collection holds its former records without the one at the key, and every other
  collection is as before (the transaction covers the named collection only).
\<close>

theorem deleteKey_frame:
  "(\<forall>d. set (store_recs (snd (deleteKey h f dbName storeName key)) d ''changeLog'') \<subseteq>
          set (store_recs h d ''changeLog'')) \<and>
   (storeName \<noteq> ''changeLog'' \<longrightarrow>
      (\<forall>d. store_recs (snd (deleteKey h f dbName storeName key)) d ''changeLog'' =
            store_recs h d ''changeLog'') \<and>
      (\<forall>d. store_recs (snd (deleteMultipleRecords h f dbName storeName filterFn)) d ''changeLog'' =
            store_recs h d ''changeLog'')) \<and>
   (deleteKey h f dbName storeName key = (Resolved (), h') \<longrightarrow>
      store_recs h' dbName storeName =
        filter (\<lambda>r. fst r \<noteq> key) (store_recs h dbName storeName) \<and>
      (\<forall>d s. (d, s) \<noteq> (dbName, storeName) \<longrightarrow> store_recs h' d s = store_recs h d s))"
proof -
  have res: "store_recs h' dbName storeName =
        filter (\<lambda>r. fst r \<noteq> key) (store_recs h dbName storeName) \<and>
      (\<forall>d s. (d, s) \<noteq> (dbName, storeName) \<longrightarrow> store_recs h' d s = store_recs h d s)"
    if op: "openDb h f dbName storeName = Inr (db, h1)" and st: "stores db storeName = Some st"
      and h': "h' = close dbName (commit dbName
          (db\<lparr>stores := (stores db)(storeName \<mapsto> store_delete key st)\<rparr>) h1)"
    for db h1 st h'
  proof -
    have d1: "dbs h1 dbName = Some db" using op by (rule openDb_dbs)
    have same: "\<And>d s. store_recs h1 d s = store_recs h d s" by (rule openDb_recs [OF op])
    have a: "store_recs h' dbName storeName = filter (\<lambda>r. fst r \<noteq> key) (store_recs h1 dbName storeName)"
      using d1 st
      by (simp add: h' store_recs_def close_def commit_def store_delete_def del_rec_def)
    have b: "\<forall>d s. (d, s) \<noteq> (dbName, storeName) \<longrightarrow> store_recs h' d s = store_recs h1 d s"
      using d1 st by (auto simp: h' store_recs_def close_def commit_def)
    from a b show ?thesis by (simp add: same)
  qed
  have c1: "\<forall>d. set (store_recs (snd (deleteKey h f dbName storeName key)) d ''changeLog'') \<subseteq>
          set (store_recs h d ''changeLog'')"
    using deleteKey_cases [of h f dbName storeName key]
  proof (elim disjE exE conjE)
    fix e assume "deleteKey h f dbName storeName key = (Rejected e, h)"
    then show ?thesis by simp
  next
    fix e db h1
    assume "openDb h f dbName storeName = Inr (db, h1)"
      "deleteKey h f dbName storeName key = (Rejected e, h1)"
    then show ?thesis by (simp add: openDb_recs)
  next
    fix db h1 st
    assume op: "openDb h f dbName storeName = Inr (db, h1)" and st: "stores db storeName = Some st"
      and r: "deleteKey h f dbName storeName key =
        (Resolved (),
         close dbName (commit dbName (db\<lparr>stores := (stores db)(storeName \<mapsto> store_delete key st)\<rparr>) h1))"
    define H where "H = close dbName (commit dbName
        (db\<lparr>stores := (stores db)(storeName \<mapsto> store_delete key st)\<rparr>) h1)"
    from res [OF op st H_def] have
      A: "store_recs H dbName storeName =
            filter (\<lambda>r. fst r \<noteq> key) (store_recs h dbName storeName)"
      and B: "\<And>d s. (d, s) \<noteq> (dbName, storeName) \<Longrightarrow> store_recs H d s = store_recs h d s"
      by blast+
    have "set (store_recs H d ''changeLog'') \<subseteq> set (store_recs h d ''changeLog'')" for d
    proof (cases "(d, ''changeLog'') = (dbName, storeName)")
      case True
      with A show ?thesis by auto
    next
      case False
      from B [OF False] show ?thesis by simp
    qed
    then show ?thesis unfolding r snd_conv H_def by blast
  qed
  have c2: "\<forall>d. store_recs (snd (deleteKey h f dbName storeName key)) d ''changeLog'' =
            store_recs h d ''changeLog''" if ne: "storeName \<noteq> ''changeLog''"
    using deleteKey_cases [of h f dbName storeName key]
  proof (elim disjE exE conjE)
    fix e assume "deleteKey h f dbName storeName key = (Rejected e, h)"
    then show ?thesis by simp
  next
    fix e db h1
    assume "openDb h f dbName storeName = Inr (db, h1)"
      "deleteKey h f dbName storeName key = (Rejected e, h1)"
    then show ?thesis by (simp add: openDb_recs)
  next
    fix db h1 st
    assume op: "openDb h f dbName storeName = Inr (db, h1)" and st: "stores db storeName = Some st"
      and r: "deleteKey h f dbName storeName key =
        (Resolved (),
         close dbName (commit dbName (db\<lparr>stores := (stores db)(storeName \<mapsto> store_delete key st)\<rparr>) h1))"
    from res [OF op st refl] ne show ?thesis
      unfolding r snd_conv by simp
  qed
  have c3: "\<forall>d. store_recs (snd (deleteMultipleRecords h f dbName storeName filterFn)) d ''changeLog'' =
            store_recs h d ''changeLog''" if ne: "storeName \<noteq> ''changeLog''"
    using deleteMultipleRecords_cases [of h f dbName storeName filterFn]
  proof (elim disjE exE conjE)
    fix r assume "deleteMultipleRecords h f dbName storeName filterFn = (r, h)"
    then show ?thesis by simp
  next
    fix r db h1
    assume "idb_open h f dbName None id = Inr (db, h1)"
      "deleteMultipleRecords h f dbName storeName filterFn = (r, h1)"
    then show ?thesis by (simp add: idb_open_id_recs)
  next
    fix h2 assume r: "deleteMultipleRecords h f dbName storeName filterFn = (Resolved (), h2)"
    from deleteMultipleRecords_Resolved [OF r] obtain db st where
      "dbs h dbName = Some db" "stores db storeName = Some st"
      and "h2 = (h\<lparr>dbs := (dbs h)(dbName \<mapsto> db\<lparr>stores := (stores db)(storeName \<mapsto>
                    st\<lparr>recs := filter (\<lambda>r. fst r \<notin> fst ` {y \<in> set (recs st). filterFn (snd y) = Inr True})
                                 (recs st)\<rparr>)\<rparr>),
                  conns := dbName # conns h\<rparr>)"
      by (elim exE conjE) (rule that; assumption)
    with ne show ?thesis by (auto simp: r store_recs_def)
  qed
  have c4: "deleteKey h f dbName storeName key = (Resolved (), h') \<longrightarrow>
      store_recs h' dbName storeName =
        filter (\<lambda>r. fst r \<noteq> key) (store_recs h dbName storeName) \<and>
      (\<forall>d s. (d, s) \<noteq> (dbName, storeName) \<longrightarrow> store_recs h' d s = store_recs h d s)"
    using deleteKey_cases [of h f dbName storeName key] res by auto
  from c1 c2 c3 c4 show ?thesis by blast
qed

theorem deleteKey_frame_witness:
  "fst (deleteKey test_host NoFault ''testdb'' ''teststore'' (KStr ''key1'')) = Resolved () \<and>
   store_recs (snd (deleteKey test_host NoFault ''testdb'' ''teststore'' (KStr ''key1'')))
       ''testdb'' ''changeLog'' =
     store_recs test_host ''testdb'' ''changeLog'' \<and>
   store_recs (snd (deleteKey test_host NoFault ''testdb'' ''teststore'' (KStr ''key1'')))
       ''testdb'' ''teststore'' =
     [(KStr ''key2'', Plain (person 2 ''Bob'')), (KStr ''key3'', Plain (person 3 ''Charlie''))]"
proof -
  have ne: "''teststore'' \<noteq> ''changeLog''" by simp
  have r: "deleteKey test_host NoFault ''testdb'' ''teststore'' (KStr ''key1'') =
      (Resolved (), snd (deleteKey test_host NoFault ''testdb'' ''teststore'' (KStr ''key1'')))"
    by (simp add: test_deleteKey_eval)
  have st: "store_recs test_host ''testdb'' ''teststore'' =
      [(KStr ''key1'', Plain (person 1 ''Alice'')),
       (KStr ''key2'', Plain (person 2 ''Bob'')),
       (KStr ''key3'', Plain (person 3 ''Charlie''))]"
    by (simp add: test_host_eq store_recs_def)
  from deleteKey_frame [of test_host NoFault "''testdb''" "''teststore''" "KStr ''key1''" always_true
      "snd (deleteKey test_host NoFault ''testdb'' ''teststore'' (KStr ''key1''))"] ne r
  have "store_recs (snd (deleteKey test_host NoFault ''testdb'' ''teststore'' (KStr ''key1'')))
       ''testdb'' ''changeLog'' = store_recs test_host ''testdb'' ''changeLog''"
    and "store_recs (snd (deleteKey test_host NoFault ''testdb'' ''teststore'' (KStr ''key1'')))
       ''testdb'' ''teststore'' =
      filter (\<lambda>r. fst r \<noteq> KStr ''key1'') (store_recs test_host ''testdb'' ''teststore'')"
    by blast+
  then show ?thesis using r by (simp add: st prod_eq_iff)
qed

text \<open>
  C6 as stated fails when the collection named is \<open>changeLog\<close> itself: after the tests'
  three writes, \<open>deleteKey('testdb', 'changeLog', 1)\<close> resolves and the log has lost the
  entry with id 1.
\<close>

theorem deleteKey_changeLog_counterexample:
  "fst (deleteKey test_host NoFault ''testdb'' ''changeLog'' (KNum 1)) = Resolved () \<and>
   store_recs test_host ''testdb'' ''changeLog'' =
     [(KNum 1, Entry 1 ''teststore'' (KStr ''key1'') (person 1 ''Alice'')),
      (KNum 2, Entry 2 ''teststore'' (KStr ''key2'') (person 2 ''Bob'')),
      (KNum 3, Entry 3 ''teststore'' (KStr ''key3'') (person 3 ''Charlie''))] \<and>
   store_recs (snd (deleteKey test_host NoFault ''testdb'' ''changeLog'' (KNum 1)))
       ''testdb'' ''changeLog'' =
     [(KNum 2, Entry 2 ''teststore'' (KStr ''key2'') (person 2 ''Bob'')),
      (KNum 3, Entry 3 ''teststore'' (KStr ''key3'') (person 3 ''Charlie''))]"
  by (simp add: test_host_eq deleteKey_def engine_defs store_recs_def Let_def)

text \<open>
  C9, as amended. \<open>writeJson\<close>, \<open>readJson\<close> and \<open>deleteKey\<close> close the handle they
  opened when they resolve: the open handles are then those of before. When they are
  rejected after the database was opened, \<open>db.close()\<close> is not reached and the handle
  stays open.
\<close>

theorem single_key_operations_close_their_handle:
  "(fst (writeJson h f dbName storeName key val) = Resolved u \<longrightarrow>
      conns (snd (writeJson h f dbName storeName key val)) = conns h) \<and>
   (fst (readJson h f dbName storeName key) = Resolved r \<longrightarrow>
      conns (snd (readJson h f dbName storeName key)) = conns h) \<and>
   (fst (deleteKey h f dbName storeName key) = Resolved u \<longrightarrow>
      conns (snd (deleteKey h f dbName storeName key)) = conns h) \<and>
   (openDb h f dbName storeName = Inr (db, h1) \<longrightarrow>
      (fst (writeJson h f dbName storeName key val) = Rejected e \<longrightarrow>
         conns (snd (writeJson h f dbName storeName key val)) = dbName # conns h) \<and>
      (fst (readJson h f dbName storeName key) = Rejected e \<longrightarrow>
         conns (snd (readJson h f dbName storeName key)) = dbName # conns h) \<and>
      (fst (deleteKey h f dbName storeName key) = Rejected e \<longrightarrow>
         conns (snd (deleteKey h f dbName storeName key)) = dbName # conns h))"
proof (intro conjI impI)
  assume "fst (writeJson h f dbName storeName key val) = Resolved u"
  then have "writeJson h f dbName storeName key val =
      (Resolved (), snd (writeJson h f dbName storeName key val))"
    by (simp add: prod_eq_iff)
  from writeJson_Resolved [OF this] obtain db h1 tx where
    "openDb h f dbName storeName = Inr (db, h1)"
    "snd (writeJson h f dbName storeName key val) = close dbName (commit dbName tx h1)"
    by blast
  then show "conns (snd (writeJson h f dbName storeName key val)) = conns h"
    by (simp add: close_def commit_def openDb_conns)
next
  assume "fst (readJson h f dbName storeName key) = Resolved r"
  with readJson_cases [of h f dbName storeName key]
  show "conns (snd (readJson h f dbName storeName key)) = conns h"
    by (auto simp: close_def openDb_conns)
next
  assume "fst (deleteKey h f dbName storeName key) = Resolved u"
  with deleteKey_cases [of h f dbName storeName key]
  show "conns (snd (deleteKey h f dbName storeName key)) = conns h"
    by (auto simp: close_def commit_def openDb_conns)
next
  assume "openDb h f dbName storeName = Inr (db, h1)"
    "fst (writeJson h f dbName storeName key val) = Rejected e"
  then show "conns (snd (writeJson h f dbName storeName key val)) = dbName # conns h"
    by (rule writeJson_Rejected_conns)
next
  assume "openDb h f dbName storeName = Inr (db, h1)"
    "fst (readJson h f dbName storeName key) = Rejected e"
  with readJson_cases [of h f dbName storeName key]
  show "conns (snd (readJson h f dbName storeName key)) = dbName # conns h"
    by (auto simp: openDb_conns)
next
  assume "openDb h f dbName storeName = Inr (db, h1)"
    "fst (deleteKey h f dbName storeName key) = Rejected e"
  with deleteKey_cases [of h f dbName storeName key]
  show "conns (snd (deleteKey h f dbName storeName key)) = dbName # conns h"
    by (auto simp: openDb_conns)
qed

theorem single_key_operations_close_their_handle_witness:
  "fst (writeJson test_host NoFault ''testdb'' ''teststore'' (KStr ''key4'') (person 4 ''Dan'')) =
     Resolved () \<and>
   conns (snd (writeJson test_host NoFault ''testdb'' ''teststore'' (KStr ''key4'') (person 4 ''Dan''))) =
     conns test_host \<and>
   fst (deleteKey test_host NoFault ''testdb'' ''teststore'' (KStr ''key1'')) = Resolved () \<and>
   conns (snd (deleteKey test_host NoFault ''testdb'' ''teststore'' (KStr ''key1''))) = conns test_host \<and>
   fst (readJson test_host (TxFault 0) ''testdb'' ''teststore'' (KStr ''key1'')) = Rejected HostFailure \<and>
   conns (snd (readJson test_host (TxFault 0) ''testdb'' ''teststore'' (KStr ''key1''))) =
     ''testdb'' # conns test_host"
proof -
  have o: "openDb test_host (TxFault 0) ''testdb'' ''teststore'' =
      Inr (the (dbs test_host ''testdb''), test_host\<lparr>conns := ''testdb'' # conns test_host\<rparr>)"
    by (simp add: test_host_eq openDb_def idb_open_def)
  have r: "fst (readJson test_host (TxFault 0) ''testdb'' ''teststore'' (KStr ''key1'')) =
      Rejected HostFailure"
    by (simp add: test_host_eq readJson_def engine_defs)
  from single_key_operations_close_their_handle
    [where h = test_host and f = NoFault and dbName = "''testdb''" and storeName = "''teststore''"
      and key = "KStr ''key4''" and val = "person 4 ''Dan''" and u = "()"]
  have a: "conns (snd (writeJson test_host NoFault ''testdb'' ''teststore'' (KStr ''key4'') (person 4 ''Dan''))) =
     conns test_host"
    by (simp add: test_write_eval)
  from single_key_operations_close_their_handle
    [where h = test_host and f = NoFault and dbName = "''testdb''" and storeName = "''teststore''"
      and key = "KStr ''key1''" and u = "()"]
  have b: "conns (snd (deleteKey test_host NoFault ''testdb'' ''teststore'' (KStr ''key1''))) = conns test_host"
    by (simp add: test_deleteKey_eval)
  from single_key_operations_close_their_handle
    [where h = test_host and f = "TxFault 0" and dbName = "''testdb''" and storeName = "''teststore''"
      and key = "KStr ''key1''" and db = "the (dbs test_host ''testdb'')"
      and ?h1.0 = "test_host\<lparr>conns := ''testdb'' # conns test_host\<rparr>" and e = HostFailure] o r
  have c: "conns (snd (readJson test_host (TxFault 0) ''testdb'' ''teststore'' (KStr ''key1''))) =
     ''testdb'' # conns test_host"
    by blast
  from a b c r show ?thesis by (simp add: test_write_eval test_deleteKey_eval)
qed

text \<open>
  C9 as stated fails: \<open>readMultipleRecords\<close> resolves and leaves its handle open (it
  never calls \<open>db.close()\<close>), and a \<open>writeJson\<close> whose transaction fails leaves its
  handle open as well.
\<close>

theorem handles_left_open_counterexample:
  "conns test_host = [] \<and>
   fst (readMultipleRecords test_host NoFault ''testdb'' ''teststore'' always_true) =
     Resolved [Plain (person 1 ''Alice''), Plain (person 2 ''Bob''), Plain (person 3 ''Charlie'')] \<and>
   conns (snd (readMultipleRecords test_host NoFault ''testdb'' ''teststore'' always_true)) = [''testdb''] \<and>
   fst (writeJson test_host (TxFault 0) ''testdb'' ''teststore'' (KStr ''key4'') (person 4 ''Dan'')) =
     Rejected TransactionError \<and>
   conns (snd (writeJson test_host (TxFault 0) ''testdb'' ''teststore'' (KStr ''key4'') (person 4 ''Dan''))) =
     [''testdb'']"
  by (simp add: test_host_eq readMultipleRecords_def writeJson_def engine_defs always_true_def Let_def)

text \<open>
  C7, as amended. When the predicate throws on a record of the collection (having
  returned on the records before it, the engine not failing), the scan stops at that
  record and the promise of \<open>readMultipleRecords\<close>, and likewise of
  \<open>deleteMultipleRecords\<close>, is never settled: it neither resolves nor is it rejected, so
  the predicate's error does not reach the caller through the promise. The transaction
  is aborted: \<open>deleteMultipleRecords\<close> leaves every collection as it was.
\<close>

theorem predicate_failure_leaves_promise_unsettled:
  assumes "store_recs h dbName storeName = pre @ (k, v) # post"
    and "\<forall>r \<in> set pre. \<exists>b. filterFn (snd r) = Inr b"
    and "filterFn v = Inl e"
  shows "fst (readMultipleRecords h NoFault dbName storeName filterFn) = Unsettled e \<and>
         fst (deleteMultipleRecords h NoFault dbName storeName filterFn) = Unsettled e \<and>
         (\<forall>d s. store_recs (snd (deleteMultipleRecords h NoFault dbName storeName filterFn)) d s =
                store_recs h d s)"
proof -
  from assms(1) obtain db st where db: "dbs h dbName = Some db"
    and st: "stores db storeName = Some st" and rs: "recs st = pre @ (k, v) # post"
    by (cases pre) (auto dest!: store_recs_Cons)
  have op: "idb_open h NoFault dbName None id = Inr (db, h\<lparr>conns := dbName # conns h\<rparr>)"
    using db by (simp add: idb_open_id_existing)
  have r: "read_cursor filterFn (recs st) [] = Inl e"
    unfolding rs using assms(2,3) by (rule read_cursor_throws)
  have d: "delete_cursor filterFn (recs st) st = Inl e"
    unfolding rs using assms(2,3) by (rule delete_cursor_throws)
  show ?thesis
    using st r d
    by (simp add: readMultipleRecords_def deleteMultipleRecords_def op transaction_def
        openCursor_def store_recs_def)
qed

theorem predicate_failure_leaves_promise_unsettled_witness:
  "fst (readMultipleRecords test_host NoFault ''testdb'' ''teststore''
          (throws_on (Plain (person 2 ''Bob'')))) = Unsettled (UserError ''predicate failed'') \<and>
   fst (deleteMultipleRecords test_host NoFault ''testdb'' ''teststore''
          (throws_on (Plain (person 2 ''Bob'')))) = Unsettled (UserError ''predicate failed'') \<and>
   store_recs (snd (deleteMultipleRecords test_host NoFault ''testdb'' ''teststore''
          (throws_on (Plain (person 2 ''Bob''))))) ''testdb'' ''teststore'' =
     [(KStr ''key1'', Plain (person 1 ''Alice'')),
      (KStr ''key2'', Plain (person 2 ''Bob'')),
      (KStr ''key3'', Plain (person 3 ''Charlie''))]"
proof -
  have st: "store_recs test_host ''testdb'' ''teststore'' =
      [(KStr ''key1'', Plain (person 1 ''Alice''))] @
       (KStr ''key2'', Plain (person 2 ''Bob'')) # [(KStr ''key3'', Plain (person 3 ''Charlie''))]"
    by (simp add: test_host_eq store_recs_def)
  have pre: "\<forall>r \<in> set [(KStr ''key1'', Plain (person 1 ''Alice''))].
      \<exists>b. throws_on (Plain (person 2 ''Bob'')) (snd r) = Inr b"
    by (auto simp: throws_on_def person_def)
  have thr: "throws_on (Plain (person 2 ''Bob'')) (Plain (person 2 ''Bob'')) =
      Inl (UserError ''predicate failed'')"
    by (simp add: throws_on_def)
  from predicate_failure_leaves_promise_unsettled [OF st pre thr] show ?thesis
    by (simp add: st)
qed

text \<open>
  C7 as stated fails: on the tests' data, with a predicate that throws on the second
  record, neither scan is rejected with the predicate's error; both promises stay
  unsettled.
\<close>

theorem predicate_failure_counterexample:
  "throws_on (Plain (person 2 ''Bob'')) (Plain (person 2 ''Bob'')) =
     Inl (UserError ''predicate failed'') \<and>
   fst (readMultipleRecords test_host NoFault ''testdb'' ''teststore''
          (throws_on (Plain (person 2 ''Bob'')))) \<noteq> Rejected (UserError ''predicate failed'') \<and>
   fst (deleteMultipleRecords test_host NoFault ''testdb'' ''teststore''
          (throws_on (Plain (person 2 ''Bob'')))) \<noteq> Rejected (UserError ''predicate failed'') \<and>
   fst (readMultipleRecords test_host NoFault ''testdb'' ''teststore''
          (throws_on (Plain (person 2 ''Bob'')))) = Unsettled (UserError ''predicate failed'') \<and>
   fst (deleteMultipleRecords test_host NoFault ''testdb'' ''teststore''
          (throws_on (Plain (person 2 ''Bob'')))) = Unsettled (UserError ''predicate failed'')"
  by (simp add: test_host_eq readMultipleRecords_def deleteMultipleRecords_def engine_defs
      throws_on_def person_def)

text \<open>
  C10, as amended. \<open>readMultipleRecords\<close>, \<open>deleteMultipleRecords\<close> and a pass of
  either notifier never create a collection: the same collections exist after them as
  before (they open the database without version and without upgrade hook). Where the
  named collection does not exist, the promise of the two scans is left unsettled, the
  \<open>NotFoundError\<close> of \<open>db.transaction\<close> being thrown inside the open request's handler
  (it is rejected only when the open request itself fails); where \<open>changeLog\<close> does not
  exist, a notifier's pass delivers nothing and schedules no further pass. \<open>writeJson\<close>,
  \<open>readJson\<close> and \<open>deleteKey\<close>, when their open request creates the database, leave it
  with the named collection and with \<open>changeLog\<close>.
\<close>

theorem bulk_operations_never_provision:
  "(\<forall>d s. has_store (snd (readMultipleRecords h f dbName storeName filterFn)) d s = has_store h d s) \<and>
   (\<forall>d s. has_store (snd (deleteMultipleRecords h f dbName storeName filterFn)) d s = has_store h d s) \<and>
   (\<forall>d s. has_store (snd (pollForChanges dbName callback h f seen)) d s = has_store h d s) \<and>
   (\<forall>d s. has_store (snd (pollForChangesWithLog dbName callback h f seen)) d s = has_store h d s) \<and>
   (\<not> has_store h dbName storeName \<longrightarrow>
      fst (readMultipleRecords h f dbName storeName filterFn) =
        (if f = OpenFault then Rejected HostFailure else Unsettled NotFoundError) \<and>
      fst (deleteMultipleRecords h f dbName storeName filterFn) =
        (if f = OpenFault then Rejected HostFailure else Unsettled NotFoundError)) \<and>
   (\<not> has_store h dbName ''changeLog'' \<longrightarrow>
      delivered (fst (pollForChanges dbName callback h f seen)) = [] \<and>
      \<not> rescheduled (fst (pollForChanges dbName callback h f seen)) \<and>
      delivered (fst (pollForChangesWithLog dbName callback h f seen)) = [] \<and>
      \<not> rescheduled (fst (pollForChangesWithLog dbName callback h f seen))) \<and>
   (dbs h dbName = None \<and> f \<noteq> OpenFault \<longrightarrow>
      has_store (snd (writeJson h f dbName storeName key val)) dbName storeName \<and>
      has_store (snd (writeJson h f dbName storeName key val)) dbName ''changeLog'' \<and>
      has_store (snd (readJson h f dbName storeName key)) dbName storeName \<and>
      has_store (snd (readJson h f dbName storeName key)) dbName ''changeLog'' \<and>
      has_store (snd (deleteKey h f dbName storeName key)) dbName storeName \<and>
      has_store (snd (deleteKey h f dbName storeName key)) dbName ''changeLog'')"
proof (intro conjI impI allI)
  assume "dbs h dbName = None \<and> f \<noteq> OpenFault"
  then obtain db h1 where op: "openDb h f dbName storeName = Inr (db, h1)"
    and s: "stores db storeName \<noteq> None" and l: "stores db ''changeLog'' \<noteq> None"
    using openDb_fresh [of h dbName f storeName] by blast
  show "has_store (snd (writeJson h f dbName storeName key val)) dbName storeName"
    using op s by (rule writeJson_keeps_stores)
  show "has_store (snd (writeJson h f dbName storeName key val)) dbName ''changeLog''"
    using op l by (rule writeJson_keeps_stores)
  show "has_store (snd (readJson h f dbName storeName key)) dbName storeName"
    using op s by (rule readJson_keeps_stores)
  show "has_store (snd (readJson h f dbName storeName key)) dbName ''changeLog''"
    using op l by (rule readJson_keeps_stores)
  show "has_store (snd (deleteKey h f dbName storeName key)) dbName storeName"
    using op s by (rule deleteKey_keeps_stores)
  show "has_store (snd (deleteKey h f dbName storeName key)) dbName ''changeLog''"
    using op l by (rule deleteKey_keeps_stores)
qed (simp_all add: has_store_readMultipleRecords has_store_deleteMultipleRecords
    has_store_pollForChanges has_store_pollForChangesWithLog missing_store_read
    missing_store_delete missing_log_poll missing_log_pollWithLog)

theorem bulk_operations_never_provision_witness:
  "\<not> has_store test_host ''testdb'' ''other'' \<and>
   fst (readMultipleRecords test_host NoFault ''testdb'' ''other'' always_true) =
     Unsettled NotFoundError \<and>
   \<not> has_store (snd (readMultipleRecords test_host NoFault ''testdb'' ''other'' always_true))
       ''testdb'' ''other'' \<and>
   \<not> has_store (empty_host :: int host) ''mydb'' ''changeLog'' \<and>
   delivered (fst (pollForChanges ''mydb'' returns empty_host NoFault {})) = [] \<and>
   has_store (snd (readJson (empty_host :: int host) NoFault ''mydb'' ''kv'' (KStr ''user:1'')))
       ''mydb'' ''kv'' \<and>
   has_store (snd (readJson (empty_host :: int host) NoFault ''mydb'' ''kv'' (KStr ''user:1'')))
       ''mydb'' ''changeLog''"
proof -
  have a: "\<not> has_store test_host ''testdb'' ''other''"
    by (simp add: test_host_eq has_store_def)
  have b: "\<not> has_store (empty_host :: int host) ''mydb'' ''changeLog''"
    by (simp add: empty_host_def has_store_def)
  have c: "dbs (empty_host :: int host) ''mydb'' = None \<and> NoFault \<noteq> OpenFault"
    by (simp add: empty_host_def)
  from bulk_operations_never_provision
    [where h = test_host and f = NoFault and dbName = "''testdb''" and storeName = "''other''"
      and filterFn = always_true] a
  have 1: "fst (readMultipleRecords test_host NoFault ''testdb'' ''other'' always_true) =
     Unsettled NotFoundError"
    and 2: "\<not> has_store (snd (readMultipleRecords test_host NoFault ''testdb'' ''other'' always_true))
       ''testdb'' ''other''"
    by simp_all
  from bulk_operations_never_provision
    [where h = "empty_host :: int host" and f = NoFault and dbName = "''mydb''" and storeName = "''kv''"
      and callback = returns and seen = "{}" and key = "KStr ''user:1''"] b c
  have 3: "delivered (fst (pollForChanges ''mydb'' returns empty_host NoFault {})) = []"
    and 4: "has_store (snd (readJson (empty_host :: int host) NoFault ''mydb'' ''kv'' (KStr ''user:1'')))
       ''mydb'' ''kv''"
    and 5: "has_store (snd (readJson (empty_host :: int host) NoFault ''mydb'' ''kv'' (KStr ''user:1'')))
       ''mydb'' ''changeLog''"
    by blast+
  from a b 1 2 3 4 5 show ?thesis by blast
qed

text \<open>
  C10 as stated fails in that the two scans do not fail on a missing collection: their
  promise is not rejected, it is left unsettled.
\<close>

theorem missing_collection_counterexample:
  "\<not> has_store test_host ''testdb'' ''other'' \<and>
   fst (readMultipleRecords test_host NoFault ''testdb'' ''other'' always_true) =
     Unsettled NotFoundError \<and>
   fst (readMultipleRecords test_host NoFault ''testdb'' ''other'' always_true) \<noteq>
     Rejected NotFoundError \<and>
   fst (deleteMultipleRecords test_host NoFault ''testdb'' ''other'' always_true) =
     Unsettled NotFoundError \<and>
   fst (deleteMultipleRecords test_host NoFault ''testdb'' ''other'' always_true) \<noteq>
     Rejected NotFoundError"
  by (simp add: test_host_eq has_store_def readMultipleRecords_def deleteMultipleRecords_def
      idb_open_def transaction_def)

text \<open>
  C8, as amended. A pass schedules the next one only from \<open>transaction.oncomplete\<close>:
  a pass that has scheduled the next one met no failure and an existing \<open>changeLog\<close>, and
  a pass on an existing \<open>changeLog\<close> with no failure and a callback that returns does
  schedule the next one. When the open request fails, or a request of the transaction,
  \<open>onNewRecordWithLog\<close> logs it and \<open>onNewRecord\<close> logs nothing. When the open request
  or the transaction fails, or
  \<open>changeLog\<close> does not exist, the failed pass is the observer's last: no later pass is
  made, whatever the engine's later states.
\<close>

theorem failed_pass_stops_polling:
  "(rescheduled (fst (pollForChanges dbName callback h f seen)) \<longrightarrow>
      f = NoFault \<and> has_store h dbName ''changeLog'') \<and>
   (rescheduled (fst (pollForChangesWithLog dbName callback h f seen)) \<longrightarrow>
      f = NoFault \<and> has_store h dbName ''changeLog'') \<and>
   (f = NoFault \<and> has_store h dbName ''changeLog'' \<and> (\<forall>v. callback v = None) \<longrightarrow>
      rescheduled (fst (pollForChanges dbName callback h f seen)) \<and>
      rescheduled (fst (pollForChangesWithLog dbName callback h f seen))) \<and>
   (f = OpenFault \<longrightarrow>
      logged (fst (pollForChangesWithLog dbName callback h f seen)) = [''Error opening database:''] \<and>
      logged (fst (pollForChanges dbName callback h f seen)) = []) \<and>
   ((\<exists>n. f = TxFault n) \<and> has_store h dbName ''changeLog'' \<and> (\<forall>v. callback v = None) \<longrightarrow>
      logged (fst (pollForChangesWithLog dbName callback h f seen)) = [''Transaction error:''] \<and>
      logged (fst (pollForChanges dbName callback h f seen)) = []) \<and>
   (f \<noteq> NoFault \<or> \<not> has_store h dbName ''changeLog'' \<longrightarrow>
      onNewRecord dbName callback ((h, f) # env) = [fst (pollForChanges dbName callback h f {})] \<and>
      onNewRecordWithLog dbName callback ((h, f) # env) =
        [fst (pollForChangesWithLog dbName callback h f {})])"
proof (intro conjI impI)
  assume "f = NoFault \<and> has_store h dbName ''changeLog'' \<and> (\<forall>v. callback v = None)"
  then show "rescheduled (fst (pollForChanges dbName callback h f seen))"
    and "rescheduled (fst (pollForChangesWithLog dbName callback h f seen))"
    by (simp_all add: pass_completes)
next
  assume "f = OpenFault"
  then show "logged (fst (pollForChangesWithLog dbName callback h f seen)) = [''Error opening database:'']"
    and "logged (fst (pollForChanges dbName callback h f seen)) = []"
    by (simp_all add: pollForChanges_def pollForChangesWithLog_def idb_open_def)
next
  assume "(\<exists>n. f = TxFault n) \<and> has_store h dbName ''changeLog'' \<and> (\<forall>v. callback v = None)"
  then show "logged (fst (pollForChangesWithLog dbName callback h f seen)) = [''Transaction error:'']"
    and "logged (fst (pollForChanges dbName callback h f seen)) = []"
    by (auto simp: failed_request_logged)
next
  assume a: "f \<noteq> NoFault \<or> \<not> has_store h dbName ''changeLog''"
  then have "\<not> rescheduled (fst (pollForChanges dbName callback h f {}))"
    using rescheduled_pollForChanges [of dbName callback h f "{}"] by blast
  then show "onNewRecord dbName callback ((h, f) # env) = [fst (pollForChanges dbName callback h f {})]"
    by (simp add: onNewRecord_def Let_def)
  from a have "\<not> rescheduled (fst (pollForChangesWithLog dbName callback h f {}))"
    using rescheduled_pollForChangesWithLog [of dbName callback h f "{}"] by blast
  then show "onNewRecordWithLog dbName callback ((h, f) # env) =
        [fst (pollForChangesWithLog dbName callback h f {})]"
    by (simp add: onNewRecordWithLog_def Let_def)
qed (auto dest: rescheduled_pollForChanges rescheduled_pollForChangesWithLog)

theorem failed_pass_stops_polling_witness:
  "logged (fst (pollForChangesWithLog ''testdb'' returns test_host OpenFault {})) =
     [''Error opening database:''] \<and>
   onNewRecordWithLog ''testdb'' returns [(test_host, OpenFault), (test_host, NoFault)] =
     [\<lparr>delivered = [], seenChanges = {}, logged = [''Error opening database:''],
       rescheduled = False\<rparr>] \<and>
   has_store test_host ''testdb'' ''changeLog'' \<and>
   rescheduled (fst (pollForChanges ''testdb'' returns test_host NoFault {}))"
proof -
  have a: "has_store test_host ''testdb'' ''changeLog''"
    by (simp add: test_host_eq has_store_def)
  have b: "\<forall>v. returns v = None" by (simp add: returns_def)
  have p: "fst (pollForChangesWithLog ''testdb'' returns test_host OpenFault {}) =
      \<lparr>delivered = [], seenChanges = {}, logged = [''Error opening database:''],
       rescheduled = False\<rparr>"
    by (simp add: pollForChangesWithLog_def idb_open_def)
  from failed_pass_stops_polling
    [where f = OpenFault and h = test_host and dbName = "''testdb''" and callback = returns
      and seen = "{}" and env = "[(test_host, NoFault)]"]
  have 1: "logged (fst (pollForChangesWithLog ''testdb'' returns test_host OpenFault {})) =
     [''Error opening database:'']"
    and 2: "onNewRecordWithLog ''testdb'' returns [(test_host, OpenFault), (test_host, NoFault)] =
      [fst (pollForChangesWithLog ''testdb'' returns test_host OpenFault {})]"
    by simp_all
  from failed_pass_stops_polling
    [where f = NoFault and h = test_host and dbName = "''testdb''" and callback = returns
      and seen = "{}"] a b
  have 3: "rescheduled (fst (pollForChanges ''testdb'' returns test_host NoFault {}))"
    by blast
  from 1 2 3 a show ?thesis by (simp add: p)
qed

text \<open>
  C8 as stated fails: a pass whose open request fails logs the failure and schedules
  nothing, and the observer makes no second pass although the engine would serve it.
\<close>

theorem failed_pass_counterexample:
  "logged (fst (pollForChangesWithLog ''testdb'' returns test_host OpenFault {})) =
     [''Error opening database:''] \<and>
   rescheduled (fst (pollForChangesWithLog ''testdb'' returns test_host OpenFault {})) = False \<and>
   rescheduled (fst (pollForChanges ''testdb'' returns test_host OpenFault {})) = False \<and>
   length (onNewRecordWithLog ''testdb'' returns
             [(test_host, OpenFault), (test_host, NoFault), (test_host, NoFault)]) = 1 \<and>
   length (onNewRecord ''testdb'' returns
             [(test_host, OpenFault), (test_host, NoFault), (test_host, NoFault)]) = 1"
  by (simp add: pollForChangesWithLog_def pollForChanges_def onNewRecord_def onNewRecordWithLog_def
      idb_open_def Let_def)




end
